theory Spec2Isabelle
  imports Main "HOL-Library.Word"
begin

unbundle bit_operations_syntax

section \<open>Python values\<close>

text \<open>
  A Python \<open>str\<close> is a sequence of code points, a \<open>bytes\<close> object a sequence of
  8-bit values. A \<open>str\<close> may hold any code point below \<open>0x110000\<close>, lone surrogates
  included. Integers are unbounded, as in the language definition (the interpreter's
  configurable limit on the length of decimal conversions is not part of the model).
\<close>

type_synonym pystr = "nat list"
type_synonym bytes = "8 word list"

definition ascii :: "string \<Rightarrow> pystr" where
  \<comment> \<open>a string literal of the source, as code points\<close>
  "ascii s = map of_char s"

text \<open>The exceptions the modules raise or let through, with the messages of the source.\<close>

datatype message =
    Msg_duplicate_link pystr      \<comment> \<open>"Un bloc avec le lien '...' existe deja"\<close>
  | Msg_already_encrypted         \<comment> \<open>"Bloc deja chiffre"\<close>
  | Msg_not_encrypted             \<comment> \<open>"Bloc non chiffre"\<close>
  | Msg_no_path                   \<comment> \<open>"Aucun chemin de fichier defini"\<close>
  | Msg_bad_password_or_corrupt   \<comment> \<open>"Mot de passe incorrect ou donnees corrompues"\<close>
  | Msg_library                   \<comment> \<open>a ValueError raised inside a library call\<close>

datatype error =
    ValueError message
  | FileNotFoundError
  | OSError
  | TypeError
  | AttributeError
  | UnicodeEncodeError
  | UnicodeDecodeError
  | BinasciiError
  | InvalidTag

subsection \<open>\<open>str\<close> methods\<close>

definition is_space :: "nat \<Rightarrow> bool" where
  \<comment> \<open>\<open>str.isspace\<close> on one character; also the class \<open>\s\<close> of \<open>re\<close> on \<open>str\<close> patterns\<close>
  "is_space c \<longleftrightarrow>
     (9 \<le> c \<and> c \<le> 13) \<or> (28 \<le> c \<and> c \<le> 32) \<or> c = 133 \<or> c = 160 \<or> c = 5760 \<or>
     (8192 \<le> c \<and> c \<le> 8202) \<or> c = 8232 \<or> c = 8233 \<or> c = 8239 \<or> c = 8287 \<or> c = 12288"

definition strip :: "pystr \<Rightarrow> pystr" where
  "strip s = rev (dropWhile is_space (rev (dropWhile is_space s)))"



definition is_linebreak :: "nat \<Rightarrow> bool" where
  \<comment> \<open>the line boundaries of \<open>str.splitlines\<close> (besides the pair CR LF)\<close>
  "is_linebreak c \<longleftrightarrow>
     (10 \<le> c \<and> c \<le> 13) \<or> (28 \<le> c \<and> c \<le> 30) \<or> c = 133 \<or> c = 8232 \<or> c = 8233"

fun splitlines_from :: "pystr \<Rightarrow> pystr \<Rightarrow> pystr list" where
  \<comment> \<open>the first argument is the line read so far\<close>
  "splitlines_from cur [] = (if cur = [] then [] else [cur])"
| "splitlines_from cur [c] =
     (if is_linebreak c then [cur] else [cur @ [c]])"
| "splitlines_from cur (c # d # cs) =
     (if c = 13 \<and> d = 10 then cur # splitlines_from [] cs
      else if is_linebreak c then cur # splitlines_from [] (d # cs)
      else splitlines_from (cur @ [c]) (d # cs))"

definition splitlines :: "pystr \<Rightarrow> pystr list" where
  "splitlines s = splitlines_from [] s"

definition partition_colon :: "pystr \<Rightarrow> pystr \<times> pystr" where
  \<comment> \<open>\<open>key, _, value = line.partition(':')\<close> on a line that holds a colon\<close>
  "partition_colon line = (takeWhile (\<lambda>c. c \<noteq> 58) line, drop 1 (dropWhile (\<lambda>c. c \<noteq> 58) line))"

fun join :: "pystr \<Rightarrow> pystr list \<Rightarrow> pystr" where
  "join sep [] = []"
| "join sep [x] = x"
| "join sep (x # y # ys) = x @ sep @ join sep (y # ys)"

definition starts :: "pystr \<Rightarrow> pystr \<Rightarrow> bool" where
  \<comment> \<open>\<open>s.startswith(p)\<close>\<close>
  "starts p s \<longleftrightarrow> take (length p) s = p"

fun contains :: "pystr \<Rightarrow> pystr \<Rightarrow> bool" where
  \<comment> \<open>\<open>p in s\<close>\<close>
  "contains p [] = (p = [])"
| "contains p (x # xs) = (starts p (x # xs) \<or> contains p xs)"

fun none_starts :: "pystr \<Rightarrow> pystr \<Rightarrow> pystr \<Rightarrow> bool" where
  \<comment> \<open>no occurrence of \<open>p\<close> in \<open>pre + s\<close> starts inside \<open>pre\<close>\<close>
  "none_starts p [] s = True"
| "none_starts p (x # pre) s = (\<not> starts p (x # pre @ s) \<and> none_starts p pre s)"



subsection \<open>\<open>int\<close> and \<open>str\<close> conversions\<close>

definition decimal_zeros :: "nat list" where
  \<comment> \<open>the characters of decimal value 0 (Unicode 14.0, the table of CPython 3.11); the
      nine characters after each have the values 1 to 9\<close>
  "decimal_zeros =
     [48, 1632, 1776, 1984, 2406, 2534, 2662, 2790, 2918, 3046, 3174, 3302, 3430, 3558,
      3664, 3792, 3872, 4160, 4240, 6112, 6160, 6470, 6608, 6784, 6800, 6992, 7088, 7232,
      7248, 42528, 43216, 43264, 43472, 43504, 43600, 44016, 65296, 66720, 68912, 69734,
      69872, 69942, 70096, 70384, 70736, 70864, 71248, 71360, 71472, 71904, 72016, 72784,
      73040, 73120, 92768, 92864, 93008, 120782, 120792, 120802, 120812, 120822, 123200,
      123632, 125264, 130032]"

definition decimal_value :: "nat \<Rightarrow> nat option" where
  "decimal_value c =
     (case find (\<lambda>z. z \<le> c \<and> c < z + 10) decimal_zeros of
        None \<Rightarrow> None
      | Some z \<Rightarrow> Some (c - z))"

definition is_digit :: "nat \<Rightarrow> bool" where
  \<comment> \<open>\<open>str.isdecimal\<close> on one character; also the class \<open>\d\<close> of \<open>re\<close> on \<open>str\<close> patterns\<close>
  "is_digit c \<longleftrightarrow> decimal_value c \<noteq> None"

fun int_digits :: "pystr \<Rightarrow> nat \<Rightarrow> nat option" where
  "int_digits [] acc = Some acc"
| "int_digits (c # cs) acc =
     (case decimal_value c of None \<Rightarrow> None | Some d \<Rightarrow> int_digits cs (10 * acc + d))"

definition int_max_str_digits :: nat where
  \<comment> \<open>\<open>sys.get_int_max_str_digits()\<close> as the interpreter starts (CPython 3.11): a decimal
      string of more digits is not converted to an \<open>int\<close>, nor such an \<open>int\<close> to a string\<close>
  "int_max_str_digits = 4300"

definition py_int :: "pystr \<Rightarrow> error + int" where
  \<comment> \<open>\<open>int(s)\<close> for a string of decimal digits. (\<open>int\<close> also reads a sign, underscores
      and surrounding white space; no such string reaches it here.)\<close>
  "py_int s =
     (if s = [] then Inl (ValueError Msg_library)
      else if int_max_str_digits < length s then Inl (ValueError Msg_library)
      else case int_digits s 0 of
        None \<Rightarrow> Inl (ValueError Msg_library)
      | Some n \<Rightarrow> Inr (int n))"

function digits_of_nat :: "nat \<Rightarrow> pystr" where
  "digits_of_nat n = (if n < 10 then [48 + n] else digits_of_nat (n div 10) @ [48 + n mod 10])"
  by pat_completeness auto
termination
  by (relation "measure (\<lambda>n. n)") auto

declare digits_of_nat.simps [simp del]

definition str_of_int :: "int \<Rightarrow> error + pystr" where
  \<comment> \<open>\<open>str(i)\<close>, as an f-string formats an \<open>int\<close>\<close>
  "str_of_int i =
     (let ds = digits_of_nat (nat \<bar>i\<bar>) in
      if int_max_str_digits < length ds then Inl (ValueError Msg_library)
      else Inr (if i < 0 then 45 # ds else ds))"

subsection \<open>\<open>dict\<close> with \<open>str\<close> keys\<close>

text \<open>
  A \<open>dict\<close> keeps its keys in insertion order; assigning to a key that is present
  replaces the value where the key stands.
\<close>

type_synonym pydict = "(pystr \<times> pystr) list"

fun dict_set :: "pydict \<Rightarrow> pystr \<Rightarrow> pystr \<Rightarrow> pydict" where
  "dict_set [] k v = [(k, v)]"
| "dict_set ((k', v') # d) k v = (if k' = k then (k, v) # d else (k', v') # dict_set d k v)"

fun dict_get :: "pydict \<Rightarrow> pystr \<Rightarrow> pystr option" where
  "dict_get [] k = None"
| "dict_get ((k', v') # d) k = (if k' = k then Some v' else dict_get d k)"


subsection \<open>The codecs \<open>utf-8\<close> and \<open>ascii\<close>\<close>

definition is_surrogate :: "nat \<Rightarrow> bool" where
  "is_surrogate c \<longleftrightarrow> 55296 \<le> c \<and> c \<le> 57343"

definition is_scalar :: "nat \<Rightarrow> bool" where
  \<comment> \<open>a character that UTF-8 encodes: any character of a \<open>str\<close> but a surrogate\<close>
  "is_scalar c \<longleftrightarrow> c < 1114112 \<and> \<not> is_surrogate c"

definition utf8_char :: "nat \<Rightarrow> bytes option" where
  \<comment> \<open>the bytes of one character; \<open>None\<close> for a surrogate, which the strict codec refuses
      (and for a number that is no character of a \<open>str\<close>)\<close>
  "utf8_char c =
     (if c < 128 then Some [of_nat c]
      else if c < 2048 then Some [of_nat (192 + c div 64), of_nat (128 + c mod 64)]
      else if is_surrogate c then None
      else if c < 65536 then
        Some [of_nat (224 + c div 4096), of_nat (128 + c div 64 mod 64), of_nat (128 + c mod 64)]
      else if c < 1114112 then
        Some [of_nat (240 + c div 262144), of_nat (128 + c div 4096 mod 64),
              of_nat (128 + c div 64 mod 64), of_nat (128 + c mod 64)]
      else None)"

fun utf8_encode :: "pystr \<Rightarrow> error + bytes" where
  \<comment> \<open>\<open>s.encode('utf-8')\<close>\<close>
  "utf8_encode [] = Inr []"
| "utf8_encode (c # cs) =
     (case utf8_char c of
        None \<Rightarrow> Inl UnicodeEncodeError
      | Some bs \<Rightarrow> (case utf8_encode cs of Inl e \<Rightarrow> Inl e | Inr r \<Rightarrow> Inr (bs @ r)))"

definition is_cont :: "8 word \<Rightarrow> bool" where
  \<comment> \<open>a continuation byte\<close>
  "is_cont b \<longleftrightarrow> 128 \<le> b \<and> b \<le> 191"

definition cons_char :: "nat \<Rightarrow> error + pystr \<Rightarrow> error + pystr" where
  "cons_char c r = (case r of Inl e \<Rightarrow> Inl e | Inr cs \<Rightarrow> Inr (c # cs))"

fun utf8_decode :: "bytes \<Rightarrow> error + pystr" where
  \<comment> \<open>\<open>b.decode('utf-8')\<close>: the strict decoder, which accepts well-formed sequences only
      (no overlong form, no surrogate, nothing above \<open>0x10FFFF\<close>)\<close>
  "utf8_decode [] = Inr []"
| "utf8_decode (b0 # bs) =
     (if b0 < 128 then cons_char (unat b0) (utf8_decode bs)
      else if 194 \<le> b0 \<and> b0 \<le> 223 then
        (case bs of
           b1 # r \<Rightarrow>
             (if is_cont b1
              then cons_char ((unat b0 - 192) * 64 + (unat b1 - 128)) (utf8_decode r)
              else Inl UnicodeDecodeError)
         | _ \<Rightarrow> Inl UnicodeDecodeError)
      else if 224 \<le> b0 \<and> b0 \<le> 239 then
        (case bs of
           b1 # b2 # r \<Rightarrow>
             (if is_cont b1 \<and> is_cont b2 \<and> (if b0 = 224 then 160 \<le> b1 else True)
                 \<and> (if b0 = 237 then b1 \<le> 159 else True)
              then cons_char ((unat b0 - 224) * 4096 + (unat b1 - 128) * 64 + (unat b2 - 128))
                     (utf8_decode r)
              else Inl UnicodeDecodeError)
         | _ \<Rightarrow> Inl UnicodeDecodeError)
      else if 240 \<le> b0 \<and> b0 \<le> 244 then
        (case bs of
           b1 # b2 # b3 # r \<Rightarrow>
             (if is_cont b1 \<and> is_cont b2 \<and> is_cont b3 \<and> (if b0 = 240 then 144 \<le> b1 else True)
                 \<and> (if b0 = 244 then b1 \<le> 143 else True)
              then cons_char ((unat b0 - 240) * 262144 + (unat b1 - 128) * 4096
                                + (unat b2 - 128) * 64 + (unat b3 - 128))
                     (utf8_decode r)
              else Inl UnicodeDecodeError)
         | _ \<Rightarrow> Inl UnicodeDecodeError)
      else Inl UnicodeDecodeError)"

definition ascii_encode :: "pystr \<Rightarrow> error + bytes" where
  \<comment> \<open>\<open>s.encode('ascii')\<close>\<close>
  "ascii_encode s = (if list_all (\<lambda>c. c < 128) s then Inr (map of_nat s) else Inl UnicodeEncodeError)"

definition ascii_decode :: "bytes \<Rightarrow> error + pystr" where
  \<comment> \<open>\<open>b.decode('ascii')\<close>\<close>
  "ascii_decode b = (if list_all (\<lambda>x. x < 128) b then Inr (map unat b) else Inl UnicodeDecodeError)"

subsection \<open>\<open>base64\<close>\<close>

definition b64_alphabet :: "8 word list" where
  "b64_alphabet = map of_char ''ABCDEFGHIJKLMNOPQRSTUVWXYZabcdefghijklmnopqrstuvwxyz0123456789+/''"

definition b2a :: "8 word \<Rightarrow> 8 word" where
  \<comment> \<open>the character of a 6-bit value\<close>
  "b2a v = b64_alphabet ! unat (v AND 63)"

fun b64encode :: "bytes \<Rightarrow> bytes" where
  \<comment> \<open>\<open>base64.b64encode\<close>: three bytes give four characters, the last group is padded with \<open>=\<close>\<close>
  "b64encode [] = []"
| "b64encode [a] = [b2a (drop_bit 2 a), b2a (push_bit 4 (a AND 3)), 61, 61]"
| "b64encode [a, b] =
     [b2a (drop_bit 2 a), b2a (push_bit 4 (a AND 3) OR drop_bit 4 b), b2a (push_bit 2 (b AND 15)), 61]"
| "b64encode (a # b # c # r) =
     [b2a (drop_bit 2 a), b2a (push_bit 4 (a AND 3) OR drop_bit 4 b),
      b2a (push_bit 2 (b AND 15) OR drop_bit 6 c), b2a (c AND 63)] @ b64encode r"

definition a2b :: "8 word \<Rightarrow> 8 word option" where
  \<comment> \<open>the 6-bit value of a character of the alphabet\<close>
  "a2b c =
     (if 65 \<le> c \<and> c \<le> 90 then Some (c - 65)
      else if 97 \<le> c \<and> c \<le> 122 then Some (c - 71)
      else if 48 \<le> c \<and> c \<le> 57 then Some (c + 4)
      else if c = 43 then Some 62
      else if c = 47 then Some 63
      else None)"

fun a2b_base64 :: "bytes \<Rightarrow> nat \<Rightarrow> 8 word \<Rightarrow> nat \<Rightarrow> bytes \<Rightarrow> error + bytes" where
  \<comment> \<open>the loop of \<open>binascii.a2b_base64\<close> (CPython 3.11) when it is not strict, over the
      characters left, with its variables \<open>quad_pos\<close>, \<open>leftchar\<close>, \<open>pads\<close> and the bytes
      written: characters outside the alphabet are skipped, a complete padding ends the
      data, and data that stops inside a group of four is refused\<close>
  "a2b_base64 [] quad_pos leftchar pads out =
     (if quad_pos \<noteq> 0 then Inl BinasciiError else Inr out)"
| "a2b_base64 (ch # rest) quad_pos leftchar pads out =
     (if ch = 61 then
        (if 2 \<le> quad_pos \<and> 4 \<le> quad_pos + (pads + 1) then Inr out
         else a2b_base64 rest quad_pos leftchar (if 2 \<le> quad_pos then pads + 1 else pads) out)
      else
        (case a2b ch of
           None \<Rightarrow> a2b_base64 rest quad_pos leftchar pads out
         | Some v \<Rightarrow>
             (if quad_pos = 0 then a2b_base64 rest 1 v 0 out
              else if quad_pos = 1 then
                a2b_base64 rest 2 (v AND 15) 0 (out @ [push_bit 2 leftchar OR drop_bit 4 v])
              else if quad_pos = 2 then
                a2b_base64 rest 3 (v AND 3) 0 (out @ [push_bit 4 leftchar OR drop_bit 2 v])
              else a2b_base64 rest 0 0 0 (out @ [push_bit 6 leftchar OR v]))))"

definition b64decode :: "pystr \<Rightarrow> error + bytes" where
  \<comment> \<open>\<open>base64.b64decode(s)\<close> on a \<open>str\<close>, with \<open>validate\<close> off: a character that is not
      ASCII is a \<open>ValueError\<close>\<close>
  "b64decode s =
     (case ascii_encode s of
        Inl e \<Rightarrow> Inl (ValueError Msg_library)
      | Inr b \<Rightarrow> a2b_base64 b 0 0 0 [])"

section \<open>\<open>crypto.JDATCrypto\<close>\<close>

text \<open>
  SHA-256 and AES-GCM come from libraries outside the repository; they are parameters of
  the model. \<open>gcm_encrypt key nonce data\<close> is the ciphertext followed by the 16-byte tag,
  \<open>gcm_decrypt key nonce data\<close> the plaintext, or \<open>None\<close> when the tag does not verify.
  The class \<open>AESGCM\<close> checks its arguments before it calls them (data is taken to be
  below the library's size limit of \<open>2^31 - 1\<close> bytes).
\<close>

record crypto_lib =
  sha256 :: "bytes \<Rightarrow> bytes"
  gcm_encrypt :: "bytes \<Rightarrow> bytes \<Rightarrow> bytes \<Rightarrow> bytes"
  gcm_decrypt :: "bytes \<Rightarrow> bytes \<Rightarrow> bytes \<Rightarrow> bytes option"

definition lib_ok :: "crypto_lib \<Rightarrow> bool" where
  \<comment> \<open>what the model takes from the library: a digest has 32 bytes; under a 256-bit key
      and a 96-bit nonce, encryption appends a 16-byte tag and decryption of its result
      verifies and returns the plaintext\<close>
  "lib_ok L \<longleftrightarrow>
     (\<forall>x. length (sha256 L x) = 32) \<and>
     (\<forall>key nonce dat. length key = 32 \<and> length nonce = 12 \<longrightarrow>
        length (gcm_encrypt L key nonce dat) = length dat + 16 \<and>
        gcm_decrypt L key nonce (gcm_encrypt L key nonce dat) = Some dat)"

definition NONCE_SIZE :: nat where "NONCE_SIZE = 12"
definition SALT_SIZE :: nat where "SALT_SIZE = 16"

definition AESGCM :: "bytes \<Rightarrow> error + bytes" where
  \<comment> \<open>the constructor: the key has 128, 192 or 256 bits\<close>
  "AESGCM key =
     (if length key = 16 \<or> length key = 24 \<or> length key = 32 then Inr key
      else Inl (ValueError Msg_library))"

definition AESGCM_encrypt :: "crypto_lib \<Rightarrow> bytes \<Rightarrow> bytes \<Rightarrow> bytes \<Rightarrow> error + bytes" where
  "AESGCM_encrypt L key nonce dat =
     (if length nonce < 8 \<or> 128 < length nonce then Inl (ValueError Msg_library)
      else Inr (gcm_encrypt L key nonce dat))"

definition AESGCM_decrypt :: "crypto_lib \<Rightarrow> bytes \<Rightarrow> bytes \<Rightarrow> bytes \<Rightarrow> error + bytes" where
  "AESGCM_decrypt L key nonce dat =
     (if length nonce < 8 \<or> 128 < length nonce then Inl (ValueError Msg_library)
      else if length dat < 16 then Inl InvalidTag
      else case gcm_decrypt L key nonce dat of None \<Rightarrow> Inl InvalidTag | Some p \<Rightarrow> Inr p)"

definition derive_key :: "crypto_lib \<Rightarrow> pystr \<Rightarrow> bytes \<Rightarrow> error + bytes" where
  "derive_key L password salt =
     (case utf8_encode password of
        Inl e \<Rightarrow> Inl e
      | Inr key_material \<Rightarrow> Inr (sha256 L (key_material @ salt)))"

definition encrypt :: "crypto_lib \<Rightarrow> bytes \<Rightarrow> bytes \<Rightarrow> pystr \<Rightarrow> pystr \<Rightarrow> error + pystr" where
  \<comment> \<open>\<open>JDATCrypto.encrypt\<close>. The arguments \<open>salt\<close> and \<open>nonce\<close> are what the two calls of
      \<open>os.urandom\<close> return in this run (\<open>SALT_SIZE\<close> and \<open>NONCE_SIZE\<close> bytes).\<close>
  "encrypt L salt nonce plaintext password =
     (case derive_key L password salt of
        Inl e \<Rightarrow> Inl e
      | Inr key \<Rightarrow>
     (case AESGCM key of
        Inl e \<Rightarrow> Inl e
      | Inr aesgcm \<Rightarrow>
     (case utf8_encode plaintext of
        Inl e \<Rightarrow> Inl e
      | Inr pt \<Rightarrow>
     (case AESGCM_encrypt L aesgcm nonce pt of
        Inl e \<Rightarrow> Inl e
      | Inr ct \<Rightarrow> ascii_decode (b64encode (salt @ nonce @ ct))))))"

definition decrypt_try :: "crypto_lib \<Rightarrow> pystr \<Rightarrow> pystr \<Rightarrow> error + pystr" where
  \<comment> \<open>the body of the \<open>try\<close> in \<open>JDATCrypto.decrypt\<close>\<close>
  "decrypt_try L ciphertext_b64 password =
     (case b64decode (strip ciphertext_b64) of
        Inl e \<Rightarrow> Inl e
      | Inr raw \<Rightarrow>
     (let salt = take SALT_SIZE raw;
          nonce = take NONCE_SIZE (drop SALT_SIZE raw);
          ct = drop (SALT_SIZE + NONCE_SIZE) raw
      in
      case derive_key L password salt of
        Inl e \<Rightarrow> Inl e
      | Inr key \<Rightarrow>
     (case AESGCM key of
        Inl e \<Rightarrow> Inl e
      | Inr aesgcm \<Rightarrow>
     (case AESGCM_decrypt L aesgcm nonce ct of
        Inl e \<Rightarrow> Inl e
      | Inr pt \<Rightarrow> utf8_decode pt))))"

definition decrypt :: "crypto_lib \<Rightarrow> pystr \<Rightarrow> pystr \<Rightarrow> error + pystr" where
  \<comment> \<open>\<open>JDATCrypto.decrypt\<close>: \<open>except Exception\<close> turns every exception of the body into
      the one \<open>ValueError\<close>\<close>
  "decrypt L ciphertext_b64 password =
     (case decrypt_try L ciphertext_b64 password of
        Inl e \<Rightarrow> Inl (ValueError Msg_bad_password_or_corrupt)
      | Inr pt \<Rightarrow> Inr pt)"

section \<open>\<open>jdat.JDATBlock\<close>\<close>

record JDATBlock =
  name :: pystr
  link :: pystr
  btype :: int                   \<comment> \<open>the attribute \<open>type\<close>\<close>
  content :: pystr
  encrypted :: bool
  data :: "pydict option"        \<comment> \<open>the attribute \<open>_data\<close>; \<open>None\<close> at construction\<close>

definition new_block :: "pystr \<Rightarrow> pystr \<Rightarrow> int \<Rightarrow> pystr \<Rightarrow> bool \<Rightarrow> JDATBlock" where
  "new_block n l t c e =
     \<lparr>name = n, link = l, btype = t, content = c, encrypted = e, data = None\<rparr>"

fun parse_lines :: "pystr list \<Rightarrow> pydict \<Rightarrow> pydict" where
  \<comment> \<open>the loop of \<open>parse_data\<close>\<close>
  "parse_lines [] d = d"
| "parse_lines (l # ls) d =
     (let line = strip l in
      if line = [] then parse_lines ls d
      else if 58 \<in> set line then
        (case partition_colon line of (key, val) \<Rightarrow> parse_lines ls (dict_set d (strip key) (strip val)))
      else parse_lines ls d)"

definition parse_data :: "JDATBlock \<Rightarrow> pydict \<times> JDATBlock" where
  \<comment> \<open>the dict returned, and the block with its cache filled\<close>
  "parse_data b =
     (if btype b \<noteq> 1 then ([], b)
      else case data b of
        Some d \<Rightarrow> (d, b)
      | None \<Rightarrow> (let d = parse_lines (splitlines (strip (content b))) [] in (d, b\<lparr>data := Some d\<rparr>)))"

definition get :: "JDATBlock \<Rightarrow> pystr \<Rightarrow> pystr option \<Rightarrow> pystr option \<times> JDATBlock" where
  "get b key dflt =
     (case parse_data b of (d, b') \<Rightarrow>
        ((case dict_get d key of Some v \<Rightarrow> Some v | None \<Rightarrow> dflt), b'))"

definition render_item :: "pystr \<times> pystr \<Rightarrow> pystr" where
  \<comment> \<open>the f-string \<open>"  {k}: {v}"\<close>\<close>
  "render_item kv = ascii ''  '' @ fst kv @ ascii '': '' @ snd kv"

definition rebuild_content :: "JDATBlock \<Rightarrow> JDATBlock" where
  "rebuild_content b =
     (if btype b = 1 then
        (case data b of
           Some d \<Rightarrow> b\<lparr>content := join [10] (map render_item d)\<rparr>
         | None \<Rightarrow> b)
      else b)"

definition set_key :: "JDATBlock \<Rightarrow> pystr \<Rightarrow> pystr \<Rightarrow> JDATBlock" where
  \<comment> \<open>the method \<open>set\<close>\<close>
  "set_key b key val =
     (case parse_data b of (d, b') \<Rightarrow> rebuild_content (b'\<lparr>data := Some (dict_set d key val)\<rparr>))"




definition block_to_jdat :: "JDATBlock \<Rightarrow> (error + pystr) \<times> JDATBlock" where
  \<comment> \<open>\<open>JDATBlock.to_jdat\<close>: the text, or the error of formatting the type, and the block
      (its content rebuilt where the source does)\<close>
  "block_to_jdat b =
     (if encrypted b then
        (case str_of_int (btype b) of
           Inl e \<Rightarrow> (Inl e, b)
         | Inr t \<Rightarrow>
             (Inr (ascii ''(n:'' @ name b @ ascii '' l:'' @ link b @ ascii '' t:'' @ t
                @ ascii '' encrypted{'' @ [10] @ content b @ [10] @ ascii ''})''), b))
      else if btype b = 1 then
        (let b' = rebuild_content b in
         case str_of_int (btype b') of
           Inl e \<Rightarrow> (Inl e, b')
         | Inr t \<Rightarrow>
             (Inr (ascii ''(n:'' @ name b' @ ascii '' l:'' @ link b' @ ascii '' t:'' @ t
                @ ascii '' {'' @ [10] @ content b' @ [10] @ ascii ''})''), b'))
      else
        (case str_of_int (btype b) of
           Inl e \<Rightarrow> (Inl e, b)
         | Inr t \<Rightarrow>
             (Inr (ascii ''(n:'' @ name b @ ascii '' l:'' @ link b @ ascii '' t:'' @ t
                @ ascii ''{'' @ [10] @ content b @ [10] @ ascii ''})''), b)))"

section \<open>The regular expressions of \<open>JDATFile._parse\<close>\<close>

text \<open>
  Both patterns are sequences of literals, repetitions of one character class (greedy or
  lazy, captured or not) and one optional captured literal. \<open>re\<close> matches by
  backtracking: at a repetition it tries the counts in the order of the quantifier
  (a greedy one from the longest run down, a lazy one from the shortest up) and keeps the
  first count for which the rest of the pattern matches. The flag \<open>DOTALL\<close> makes
  \<open>.\<close> the class of all characters.
\<close>

datatype cclass = Space | NonSpace | Digit | AnyChar

fun in_class :: "cclass \<Rightarrow> nat \<Rightarrow> bool" where
  "in_class Space c = is_space c"
| "in_class NonSpace c = (\<not> is_space c)"
| "in_class Digit c = is_digit c"
| "in_class AnyChar c = True"

datatype greed = Greedy | Lazy

datatype item =
    Lit pystr                    \<comment> \<open>literal text\<close>
  | Rep cclass nat greed bool    \<comment> \<open>class, least count, quantifier, whether it is a group\<close>
  | OptLit pystr                 \<comment> \<open>\<open>(text)?\<close>, a group\<close>

type_synonym groups = "pystr option list"

fun first_some :: "('a \<Rightarrow> 'b option) \<Rightarrow> 'a list \<Rightarrow> 'b option" where
  "first_some f [] = None"
| "first_some f (x # xs) = (case f x of Some y \<Rightarrow> Some y | None \<Rightarrow> first_some f xs)"

definition counts :: "greed \<Rightarrow> nat \<Rightarrow> nat \<Rightarrow> nat list" where
  \<comment> \<open>the counts between the least one and the length of the run, in the order tried\<close>
  "counts g mn run = (case g of Greedy \<Rightarrow> rev [mn..<Suc run] | Lazy \<Rightarrow> [mn..<Suc run])"

fun bt :: "item list \<Rightarrow> pystr \<Rightarrow> groups \<Rightarrow> (groups \<times> pystr) option" where
  \<comment> \<open>match at the start of the text: the groups and the text after the match\<close>
  "bt [] s gs = Some (gs, s)"
| "bt (Lit l # r) s gs =
     (if take (length l) s = l then bt r (drop (length l) s) gs else None)"
| "bt (Rep cl mn g cap # r) s gs =
     first_some (\<lambda>k. bt r (drop k s) (if cap then gs @ [Some (take k s)] else gs))
       (counts g mn (length (takeWhile (in_class cl) s)))"
| "bt (OptLit l # r) s gs =
     (if take (length l) s = l then
        (case bt r (drop (length l) s) (gs @ [Some l]) of
           Some res \<Rightarrow> Some res
         | None \<Rightarrow> bt r s (gs @ [None]))
      else bt r s (gs @ [None]))"

function finditer :: "item list \<Rightarrow> pystr \<Rightarrow> groups list" where
  \<comment> \<open>the matches from left to right, each search starting where the last match ended\<close>
  "finditer p s =
     (case bt p s [] of
        Some (gs, rest) \<Rightarrow>
          (if length rest < length s then gs # finditer p rest
           else gs # (case s of [] \<Rightarrow> [] | c # cs \<Rightarrow> finditer p cs))
      | None \<Rightarrow> (case s of [] \<Rightarrow> [] | c # cs \<Rightarrow> finditer p cs))"
  by pat_completeness auto
termination
  by (relation "measure (\<lambda>(p, s). length s)") auto

declare finditer.simps [simp del]

definition group :: "groups \<Rightarrow> nat \<Rightarrow> pystr option" where
  \<comment> \<open>\<open>m.group(i)\<close> for a group of the pattern; \<open>None\<close> when the group took no part\<close>
  "group m i = (if 1 \<le> i \<and> i \<le> length m then m ! (i - 1) else None)"

definition comment_pattern :: "item list" where
  \<comment> \<open>\<open>\(\{<(.*?)>\}\)\<close>\<close>
  "comment_pattern = [Lit (ascii ''({<''), Rep AnyChar 0 Lazy True, Lit (ascii ''>})'')]"

definition block_pattern :: "item list" where
  \<comment> \<open>\<open>\(n:(\S+)\s+l:(\S+)\s+t:(\d+)\s*(encrypted)?\s*\{(.*?)\}\)\<close>\<close>
  "block_pattern =
     [Lit (ascii ''(n:''), Rep NonSpace 1 Greedy True, Rep Space 1 Greedy False,
      Lit (ascii ''l:''), Rep NonSpace 1 Greedy True, Rep Space 1 Greedy False,
      Lit (ascii ''t:''), Rep Digit 1 Greedy True, Rep Space 0 Greedy False,
      OptLit (ascii ''encrypted''), Rep Space 0 Greedy False,
      Lit (ascii ''{''), Rep AnyChar 0 Lazy True, Lit (ascii ''})'')]"

text \<open>
  What the groups of a match of a pattern look like: one entry for each group of the
  pattern, in order; a repetition's group holds at least the least count of characters
  of its class.
\<close>

fun groups_of :: "item list \<Rightarrow> groups \<Rightarrow> bool" where
  "groups_of [] gs = (gs = [])"
| "groups_of (Lit l # r) gs = groups_of r gs"
| "groups_of (Rep cl mn g cap # r) gs =
     (if cap then
        (case gs of
           Some x # gs' \<Rightarrow> mn \<le> length x \<and> list_all (in_class cl) x \<and> groups_of r gs'
         | _ \<Rightarrow> False)
      else groups_of r gs)"
| "groups_of (OptLit l # r) gs =
     (case gs of
        e # gs' \<Rightarrow> (e = None \<or> e = Some l) \<and> groups_of r gs'
      | _ \<Rightarrow> False)"

section \<open>\<open>jdat.JDATFile\<close>\<close>

record JDATFile =
  path :: "pystr option"     \<comment> \<open>a \<open>Path\<close>, as the string it was built from\<close>
  blocks :: "JDATBlock list"
  comments :: "pystr list"

definition new_file :: "pystr option \<Rightarrow> JDATFile" where
  "new_file p = \<lparr>path = (case p of Some q \<Rightarrow> (if q = [] then None else Some q) | None \<Rightarrow> None),
                 blocks = [], comments = []\<rparr>"

fun append_comments :: "groups list \<Rightarrow> JDATFile \<Rightarrow> (error + unit) \<times> JDATFile" where
  \<comment> \<open>the loop over the comment matches\<close>
  "append_comments [] f = (Inr (), f)"
| "append_comments (m # ms) f =
     (case group m 1 of
        None \<Rightarrow> (Inl AttributeError, f)
      | Some g \<Rightarrow> append_comments ms (f\<lparr>comments := comments f @ [strip g]\<rparr>))"

definition block_of_match :: "groups \<Rightarrow> error + JDATBlock" where
  \<comment> \<open>the body of the loop over the block matches. Groups 1, 2, 3 and 5 take part in
      every match of the pattern, so the last case does not arise.\<close>
  "block_of_match m =
     (case (group m 1, group m 2, group m 3, group m 5) of
        (Some n, Some l, Some d, Some c) \<Rightarrow>
          (case py_int d of
             Inl e \<Rightarrow> Inl e
           | Inr t \<Rightarrow>
               Inr (new_block n l t c
                 (case group m 4 of
                    None \<Rightarrow> False
                  | Some g \<Rightarrow> if g = [] then False else g = ascii ''encrypted'')))
      | _ \<Rightarrow> Inl TypeError)"

fun append_blocks :: "groups list \<Rightarrow> JDATFile \<Rightarrow> (error + unit) \<times> JDATFile" where
  "append_blocks [] f = (Inr (), f)"
| "append_blocks (m # ms) f =
     (case block_of_match m of
        Inl e \<Rightarrow> (Inl e, f)
      | Inr b \<Rightarrow> append_blocks ms (f\<lparr>blocks := blocks f @ [b]\<rparr>))"

definition parse :: "JDATFile \<Rightarrow> pystr \<Rightarrow> (error + unit) \<times> JDATFile" where
  \<comment> \<open>\<open>JDATFile._parse\<close>\<close>
  "parse f text =
     (let f0 = f\<lparr>blocks := [], comments := []\<rparr> in
      case append_comments (finditer comment_pattern text) f0 of
        (Inl e, f1) \<Rightarrow> (Inl e, f1)
      | (Inr u, f1) \<Rightarrow> append_blocks (finditer block_pattern text) f1)"

text \<open>
  The file system, as \<open>load\<close> sees it: a path does not exist, or reading it as UTF-8 text
  raises, or gives the text.
\<close>

type_synonym filesystem = "pystr \<Rightarrow> (error + pystr) option"

definition load :: "filesystem \<Rightarrow> JDATFile \<Rightarrow> pystr option \<Rightarrow> (error + unit) \<times> JDATFile" where
  "load fs f p =
     (let f1 = (case p of Some q \<Rightarrow> (if q = [] then f else f\<lparr>path := Some q\<rparr>) | None \<Rightarrow> f) in
      case path f1 of
        None \<Rightarrow> (Inl FileNotFoundError, f1)
      | Some q \<Rightarrow>
          (case fs q of
             None \<Rightarrow> (Inl FileNotFoundError, f1)
           | Some (Inl e) \<Rightarrow> (Inl e, f1)
           | Some (Inr text) \<Rightarrow> parse f1 text))"

fun link_index :: "JDATBlock list \<Rightarrow> pystr \<Rightarrow> nat option" where
  \<comment> \<open>where the loop of \<open>get_by_link\<close> stops\<close>
  "link_index [] l = None"
| "link_index (b # bs) l = (if link b = l then Some 0 else map_option Suc (link_index bs l))"

definition get_by_link :: "JDATFile \<Rightarrow> pystr \<Rightarrow> JDATBlock option" where
  "get_by_link f l = map_option (\<lambda>i. blocks f ! i) (link_index (blocks f) l)"

fun blocks_to_jdat :: "JDATBlock list \<Rightarrow> (error + pystr list) \<times> JDATBlock list" where
  \<comment> \<open>the loop over the blocks in \<open>JDATFile.to_jdat\<close>: the texts, or the first error (the
      blocks after it are not reached)\<close>
  "blocks_to_jdat [] = (Inr [], [])"
| "blocks_to_jdat (b # bs) =
     (case block_to_jdat b of
        (Inl e, b') \<Rightarrow> (Inl e, b' # bs)
      | (Inr t, b') \<Rightarrow>
          (case blocks_to_jdat bs of
             (Inl e, bs') \<Rightarrow> (Inl e, b' # bs')
           | (Inr ts, bs') \<Rightarrow> (Inr (t # ts), b' # bs')))"

definition to_jdat :: "JDATFile \<Rightarrow> (error + pystr) \<times> JDATFile" where
  \<comment> \<open>\<open>JDATFile.to_jdat\<close>\<close>
  "to_jdat f =
     (case blocks_to_jdat (blocks f) of
        (Inl e, bs') \<Rightarrow> (Inl e, f\<lparr>blocks := bs'\<rparr>)
      | (Inr ts, bs') \<Rightarrow>
          (Inr (join [10, 10] (map (\<lambda>c. ascii ''({<'' @ c @ ascii ''>})'') (comments f) @ ts)
             @ [10]),
           f\<lparr>blocks := bs'\<rparr>))"

text \<open>
  The blocks that \<open>_parse\<close> builds: name and link are not empty and hold no white
  space, the type is a natural number of no more digits than \<open>str\<close> converts, the
  content holds no \<open>})\<close>, and nothing is cached. The groups of the match of the text of
  such a block: the content comes back between the two line feeds \<open>to_jdat\<close> wrote.
\<close>

definition wf_block :: "JDATBlock \<Rightarrow> bool" where
  "wf_block b \<longleftrightarrow>
     name b \<noteq> [] \<and> list_all (\<lambda>x. \<not> is_space x) (name b) \<and>
     link b \<noteq> [] \<and> list_all (\<lambda>x. \<not> is_space x) (link b) \<and>
     0 \<le> btype b \<and> length (digits_of_nat (nat (btype b))) \<le> int_max_str_digits \<and>
     \<not> contains (ascii ''})'') (content b) \<and> data b = None"

definition block_groups :: "JDATBlock \<Rightarrow> groups" where
  "block_groups b =
     [Some (name b), Some (link b), Some (digits_of_nat (nat (btype b))),
      (if encrypted b then Some (ascii ''encrypted'') else None),
      Some (10 # content b @ [10])]"

definition encrypt_block ::
  "crypto_lib \<Rightarrow> bytes \<Rightarrow> bytes \<Rightarrow> JDATFile \<Rightarrow> pystr \<Rightarrow> pystr \<Rightarrow> (error + bool) \<times> JDATFile" where
  \<comment> \<open>\<open>JDATFile.encrypt_block\<close>: what is returned or raised, and the file afterwards. The
      block found is changed where it stands in the list.\<close>
  "encrypt_block L salt nonce f l password =
     (case link_index (blocks f) l of
        None \<Rightarrow> (Inr False, f)
      | Some i \<Rightarrow>
          (let block = blocks f ! i in
           if encrypted block then (Inl (ValueError Msg_already_encrypted), f)
           else
             (let block1 = (if btype block = 1 then rebuild_content block else block) in
              case encrypt L salt nonce (content block1) password of
                Inl e \<Rightarrow> (Inl e, f\<lparr>blocks := (blocks f)[i := block1]\<rparr>)
              | Inr c \<Rightarrow>
                  (Inr True, f\<lparr>blocks := (blocks f)[i := block1\<lparr>content := c, encrypted := True\<rparr>]\<rparr>))))"

definition decrypt_block ::
  "crypto_lib \<Rightarrow> JDATFile \<Rightarrow> pystr \<Rightarrow> pystr \<Rightarrow> (error + bool) \<times> JDATFile" where
  \<comment> \<open>\<open>JDATFile.decrypt_block\<close>\<close>
  "decrypt_block L f l password =
     (case link_index (blocks f) l of
        None \<Rightarrow> (Inr False, f)
      | Some i \<Rightarrow>
          (let block = blocks f ! i in
           if \<not> encrypted block then (Inl (ValueError Msg_not_encrypted), f)
           else
             (case decrypt L (content block) password of
                Inl e \<Rightarrow> (Inl e, f)
              | Inr c \<Rightarrow>
                  (Inr True,
                   f\<lparr>blocks := (blocks f)[i := block\<lparr>content := c, encrypted := False, data := None\<rparr>]\<rparr>))))"

definition assign_content :: "JDATBlock \<Rightarrow> pystr \<Rightarrow> JDATBlock" where
  \<comment> \<open>the assignment \<open>block.content = c\<close>, as the shell's \<open>edit\<close> makes it\<close>
  "assign_content b c = b\<lparr>content := c\<rparr>"

section \<open>Values for evaluation\<close>

text \<open>
  A stand-in for the library, small enough to compute with: the digest is the first 32
  bytes of the padded input, the tag is the first 16 bytes of the key. It has the
  interface of the library and none of its security.
\<close>

definition standin_lib :: crypto_lib where
  "standin_lib =
     \<lparr>sha256 = (\<lambda>x. take 32 (x @ replicate 32 0)),
      gcm_encrypt = (\<lambda>key nonce dat. dat @ take 16 key),
      gcm_decrypt = (\<lambda>key nonce dat.
         if 16 \<le> length dat \<and> drop (length dat - 16) dat = take 16 key
         then Some (take (length dat - 16) dat) else None)\<rparr>"

definition salt0 :: bytes where "salt0 = replicate 16 0"
definition nonce0 :: bytes where "nonce0 = replicate 12 0"

definition user_block :: JDATBlock where
  \<comment> \<open>the block of \<open>(n:user l:u1 t:1 {...})\<close> with the lines \<open>name: Alice\<close> and \<open>age: 30\<close>\<close>
  "user_block =
     new_block (ascii ''user'') (ascii ''u1'') 1
       ([10] @ ascii ''  name: Alice'' @ [10] @ ascii ''  age: 30'' @ [10]) False"

definition user_file :: JDATFile where
  "user_file = \<lparr>path = None, blocks = [user_block], comments = []\<rparr>"

definition locked_file :: JDATFile where
  \<comment> \<open>\<open>user_file\<close> after \<open>encrypt_block('u1', 'secret123')\<close>\<close>
  "locked_file = snd (encrypt_block standin_lib salt0 nonce0 user_file (ascii ''u1'') (ascii ''secret123''))"

section \<open>Evaluation\<close>

lemma replicate_numeral: "replicate (numeral k) x = x # replicate (pred_numeral k) x"
  by (simp add: numeral_eq_Suc)

lemmas str_eval = ascii_def strip_def is_space_def

lemmas crypto_eval = encrypt_def decrypt_def decrypt_try_def derive_key_def AESGCM_def
  AESGCM_encrypt_def AESGCM_decrypt_def standin_lib_def salt0_def nonce0_def utf8_char_def
  is_surrogate_def is_cont_def cons_char_def b2a_def b64_alphabet_def a2b_def ascii_decode_def
  ascii_encode_def b64decode_def SALT_SIZE_def NONCE_SIZE_def replicate_numeral

lemmas block_eval = new_block_def parse_data_def get_def set_key_def rebuild_content_def
  render_item_def splitlines_def is_linebreak_def partition_colon_def

lemmas file_eval = encrypt_block_def decrypt_block_def get_by_link_def user_file_def
  user_block_def

lemma locked_file_eq:
  "locked_file =
     \<lparr>path = None,
      blocks = [\<lparr>name = ascii ''user'', link = ascii ''u1'', btype = 1,
                 content = ascii ''AAAAAAAAAAAAAAAAAAAAAAAAAAAAAAAAAAAAAAogIG5hbWU6IEFsaWNlCiAgYWdlOiAzMApzZWNyZXQxMjMAAAAAAAAA'',
                 encrypted = True, data = None\<rparr>],
      comments = []\<rparr>"
  by (simp add: locked_file_def file_eval block_eval crypto_eval str_eval)

section \<open>Lookup by link\<close>

lemma link_index_Some: "link_index bs l = Some i \<Longrightarrow> i < length bs \<and> link (bs ! i) = l"
  by (induction bs arbitrary: i) (auto split: if_splits)

lemma get_by_link_None: "get_by_link f l = None \<longleftrightarrow> link_index (blocks f) l = None"
  by (simp add: get_by_link_def)

section \<open>The cipher operations of the file\<close>

text \<open>
  C3. When no block has the link, \<open>encrypt_block\<close> and \<open>decrypt_block\<close> raise nothing:
  they return \<open>False\<close> and leave the file as it is. (An encrypted or a plain block where
  the other is expected is a \<open>ValueError\<close>; the absent block is not.)
\<close>

theorem block_not_found_returns_False:
  "get_by_link f l = None \<Longrightarrow>
     encrypt_block L salt nonce f l password = (Inr False, f) \<and>
     decrypt_block L f l password = (Inr False, f)"
  by (simp add: get_by_link_None encrypt_block_def decrypt_block_def)

theorem block_not_found_returns_False_witness:
  "get_by_link user_file (ascii ''u2'') = None \<and>
   encrypt_block standin_lib salt0 nonce0 user_file (ascii ''u2'') (ascii ''secret123'')
     = (Inr False, user_file) \<and>
   decrypt_block standin_lib user_file (ascii ''u2'') (ascii ''secret123'') = (Inr False, user_file)"
proof -
  have h: "get_by_link user_file (ascii ''u2'') = None"
    by (simp add: get_by_link_def user_file_def user_block_def new_block_def ascii_def)
  show ?thesis
    using h block_not_found_returns_False [OF h] by simp
qed

theorem block_not_found_raises_nothing:
  "fst (encrypt_block standin_lib salt0 nonce0 user_file (ascii ''u2'') (ascii ''secret123''))
     = Inr False \<and>
   fst (decrypt_block standin_lib user_file (ascii ''u2'') (ascii ''secret123'')) = Inr False"
  by (simp add: encrypt_block_def decrypt_block_def user_file_def user_block_def new_block_def
      ascii_def)

text \<open>
  C6. When \<open>decrypt_block\<close> raises the error of \<open>JDATCrypto.decrypt\<close>, the file is
  as it was before the call: the block found is still encrypted, and its content and its
  cache are untouched.
\<close>

theorem decrypt_failure_leaves_block:
  "fst (decrypt_block L f l password) = Inl (ValueError Msg_bad_password_or_corrupt) \<Longrightarrow>
     snd (decrypt_block L f l password) = f \<and>
     (\<exists>b. get_by_link f l = Some b \<and> encrypted b \<and>
          get_by_link (snd (decrypt_block L f l password)) l = Some b)"
  by (auto simp: decrypt_block_def get_by_link_def Let_def decrypt_def
      split: option.splits sum.splits if_splits)

theorem decrypt_failure_leaves_block_witness:
  "fst (decrypt_block standin_lib locked_file (ascii ''u1'') (ascii ''wrong''))
      = Inl (ValueError Msg_bad_password_or_corrupt) \<and>
   snd (decrypt_block standin_lib locked_file (ascii ''u1'') (ascii ''wrong'')) = locked_file"
proof -
  have h: "fst (decrypt_block standin_lib locked_file (ascii ''u1'') (ascii ''wrong''))
      = Inl (ValueError Msg_bad_password_or_corrupt)"
    by (simp add: locked_file_eq file_eval crypto_eval str_eval)
  show ?thesis
    using h decrypt_failure_leaves_block [OF h] by simp
qed

text \<open>
  C4. \<open>decrypt_block\<close> clears the cache of the block it decrypts; \<open>encrypt_block\<close>
  replaces the content by the ciphertext and keeps the cache. Here the cache of the block
  \<open>u1\<close> is filled by a \<open>get\<close>, then the block is encrypted: the cache still holds the
  plaintext view, and \<open>get\<close> on the encrypted block answers from it.
\<close>

lemma decrypt_block_clears_cache:
  "decrypt_block L f l password = (Inr True, f') \<Longrightarrow> link_index (blocks f) l = Some i \<Longrightarrow>
     data (blocks f' ! i) = None"
  by (auto simp: decrypt_block_def Let_def dest: link_index_Some
      split: option.splits sum.splits if_splits)

lemma encrypt_block_keeps_cache:
  "encrypt_block L salt nonce f l password = (Inr True, f') \<Longrightarrow>
     link_index (blocks f) l = Some i \<Longrightarrow> data (blocks f' ! i) = data (blocks f ! i)"
  by (auto simp: encrypt_block_def Let_def rebuild_content_def dest: link_index_Some
      split: option.splits sum.splits if_splits)

lemma cached_user_block:
  "snd (get user_block (ascii ''name'') None) =
     user_block\<lparr>data := Some [(ascii ''name'', ascii ''Alice''), (ascii ''age'', ascii ''30'')]\<rparr>"
  by (simp add: user_block_def block_eval str_eval Let_def)

lemma user_plain_encrypted:
  "encrypt standin_lib salt0 nonce0 (ascii ''  name: Alice'' @ 10 # ascii ''  age: 30'')
     (ascii ''secret123'') =
   Inr (ascii ''AAAAAAAAAAAAAAAAAAAAAAAAAAAAAAAAAAAAACAgbmFtZTogQWxpY2UKICBhZ2U6IDMwc2VjcmV0MTIzAAAAAAAAAA=='')"
  by (simp add: crypto_eval str_eval)

theorem encrypt_block_stale_cache:
  "encrypt_block standin_lib salt0 nonce0
     (user_file\<lparr>blocks := [snd (get user_block (ascii ''name'') None)]\<rparr>)
     (ascii ''u1'') (ascii ''secret123'') =
   (Inr True,
    \<lparr>path = None,
     blocks = [\<lparr>name = ascii ''user'', link = ascii ''u1'', btype = 1,
                content = ascii ''AAAAAAAAAAAAAAAAAAAAAAAAAAAAAAAAAAAAACAgbmFtZTogQWxpY2UKICBhZ2U6IDMwc2VjcmV0MTIzAAAAAAAAAA=='',
                encrypted = True,
                data = Some [(ascii ''name'', ascii ''Alice''), (ascii ''age'', ascii ''30'')]\<rparr>],
     comments = []\<rparr>) \<and>
   fst (get \<lparr>name = ascii ''user'', link = ascii ''u1'', btype = 1,
             content = ascii ''AAAAAAAAAAAAAAAAAAAAAAAAAAAAAAAAAAAAACAgbmFtZTogQWxpY2UKICBhZ2U6IDMwc2VjcmV0MTIzAAAAAAAAAA=='',
             encrypted = True,
             data = Some [(ascii ''name'', ascii ''Alice''), (ascii ''age'', ascii ''30'')]\<rparr>
          (ascii ''name'') None) = Some (ascii ''Alice'')"
proof -
  have rb: "content (rebuild_content (user_block\<lparr>data := Some [(ascii ''name'', ascii ''Alice''), (ascii ''age'', ascii ''30'')]\<rparr>))
      = ascii ''  name: Alice'' @ 10 # ascii ''  age: 30''"
    by (simp add: rebuild_content_def user_block_def new_block_def render_item_def ascii_def)
  have rb': "rebuild_content (user_block\<lparr>data := Some [(ascii ''name'', ascii ''Alice''), (ascii ''age'', ascii ''30'')]\<rparr>)
      = user_block\<lparr>data := Some [(ascii ''name'', ascii ''Alice''), (ascii ''age'', ascii ''30'')],
           content := ascii ''  name: Alice'' @ 10 # ascii ''  age: 30''\<rparr>"
    by (simp add: rebuild_content_def user_block_def new_block_def render_item_def ascii_def)
  have 1: "encrypt_block standin_lib salt0 nonce0
     (user_file\<lparr>blocks := [snd (get user_block (ascii ''name'') None)]\<rparr>)
     (ascii ''u1'') (ascii ''secret123'') =
   (Inr True,
    \<lparr>path = None,
     blocks = [\<lparr>name = ascii ''user'', link = ascii ''u1'', btype = 1,
                content = ascii ''AAAAAAAAAAAAAAAAAAAAAAAAAAAAAAAAAAAAACAgbmFtZTogQWxpY2UKICBhZ2U6IDMwc2VjcmV0MTIzAAAAAAAAAA=='',
                encrypted = True,
                data = Some [(ascii ''name'', ascii ''Alice''), (ascii ''age'', ascii ''30'')]\<rparr>],
     comments = []\<rparr>)"
    unfolding cached_user_block encrypt_block_def
    by (simp add: user_file_def Let_def rb' user_plain_encrypted)
       (simp add: user_block_def new_block_def)
  have 2: "fst (get \<lparr>name = ascii ''user'', link = ascii ''u1'', btype = 1,
             content = ascii ''AAAAAAAAAAAAAAAAAAAAAAAAAAAAAAAAAAAAACAgbmFtZTogQWxpY2UKICBhZ2U6IDMwc2VjcmV0MTIzAAAAAAAAAA=='',
             encrypted = True,
             data = Some [(ascii ''name'', ascii ''Alice''), (ascii ''age'', ascii ''30'')]\<rparr>
          (ascii ''name'') None) = Some (ascii ''Alice'')"
    by (simp add: get_def parse_data_def ascii_def)
  from 1 2 show ?thesis by (rule conjI)
qed

section \<open>Structural access\<close>

text \<open>
  C5. \<open>parse_data\<close> and \<open>get\<close> do not look at the flag \<open>encrypted\<close> and raise nothing:
  on an encrypted block they answer as on the plain block with the same content and
  cache, that is from the cache when there is one and else from the content read as
  \<open>key: value\<close> lines.
\<close>

theorem structural_access_ignores_flag:
  "parse_data (b\<lparr>encrypted := e\<rparr>) = (fst (parse_data b), (snd (parse_data b))\<lparr>encrypted := e\<rparr>) \<and>
   get (b\<lparr>encrypted := e\<rparr>) key dflt = (fst (get b key dflt), (snd (get b key dflt))\<lparr>encrypted := e\<rparr>)"
  by (simp add: parse_data_def get_def Let_def split: option.splits prod.splits)

theorem structural_access_on_encrypted_returns:
  "parse_data (blocks locked_file ! 0) = ([], (blocks locked_file ! 0)\<lparr>data := Some []\<rparr>) \<and>
   fst (get (blocks locked_file ! 0) (ascii ''name'') None) = None \<and>
   fst (get (new_block (ascii ''a'') (ascii ''b'') 1 (ascii ''k: v'') True) (ascii ''k'') None)
     = Some (ascii ''v'')"
  by (simp add: locked_file_eq block_eval str_eval Let_def)

section \<open>The structured view\<close>









section \<open>White space at the ends\<close>


























section \<open>Lines\<close>

lemma join_Cons: "join sep (x # xs) = (if xs = [] then x else x @ sep @ join sep xs)"
  by (cases xs) simp_all











section \<open>Reading a rebuilt content\<close>










section \<open>Clean views\<close>









section \<open>Errors of \<open>JDATCrypto.decrypt\<close>\<close>

lemma decrypt_cases:
  "decrypt L c pw = Inl (ValueError Msg_bad_password_or_corrupt) \<or> (\<exists>p. decrypt L c pw = Inr p)"
  by (auto simp: decrypt_def split: sum.splits)

lemma short_blob_fails:
  "length raw < SALT_SIZE + NONCE_SIZE \<Longrightarrow>
     \<exists>e. AESGCM_decrypt L key (take NONCE_SIZE (drop SALT_SIZE raw)) (drop (SALT_SIZE + NONCE_SIZE) raw) = Inl e"
  by (auto simp: AESGCM_decrypt_def)

text \<open>
  C2. Whatever goes wrong in \<open>JDATCrypto.decrypt\<close>, the caller sees the one
  \<open>ValueError\<close>: the text is no base64, the bytes are fewer than salt and nonce, the tag
  does not verify under the key of this password, the password has no UTF-8 encoding. A
  string is returned only when the bytes hold salt, nonce and a tag, the library verified
  the tag under the key derived from this password, and the string is the UTF-8 reading
  of the plaintext the library gave.
\<close>

theorem decrypt_failures_are_one_error:
  "(decrypt L c pw = Inl e \<longrightarrow> e = ValueError Msg_bad_password_or_corrupt) \<and>
   (b64decode (strip c) = Inl e' \<longrightarrow> decrypt L c pw = Inl (ValueError Msg_bad_password_or_corrupt)) \<and>
   (b64decode (strip c) = Inr raw \<and> length raw < SALT_SIZE + NONCE_SIZE \<longrightarrow>
      decrypt L c pw = Inl (ValueError Msg_bad_password_or_corrupt)) \<and>
   (b64decode (strip c) = Inr raw \<and> derive_key L pw (take SALT_SIZE raw) = Inr key \<and>
    gcm_decrypt L key (take NONCE_SIZE (drop SALT_SIZE raw)) (drop (SALT_SIZE + NONCE_SIZE) raw) = None \<longrightarrow>
      decrypt L c pw = Inl (ValueError Msg_bad_password_or_corrupt)) \<and>
   (utf8_encode pw = Inl e' \<longrightarrow> decrypt L c pw = Inl (ValueError Msg_bad_password_or_corrupt)) \<and>
   (decrypt L c pw = Inr p \<longrightarrow>
      (\<exists>raw key pt. b64decode (strip c) = Inr raw \<and> SALT_SIZE + NONCE_SIZE + 16 \<le> length raw \<and>
         derive_key L pw (take SALT_SIZE raw) = Inr key \<and>
         gcm_decrypt L key (take NONCE_SIZE (drop SALT_SIZE raw)) (drop (SALT_SIZE + NONCE_SIZE) raw) = Some pt \<and>
         utf8_decode pt = Inr p))"
proof (intro conjI impI)
  assume "decrypt L c pw = Inl e"
  then show "e = ValueError Msg_bad_password_or_corrupt"
    by (auto simp: decrypt_def split: sum.splits)
next
  assume "b64decode (strip c) = Inl e'"
  then show "decrypt L c pw = Inl (ValueError Msg_bad_password_or_corrupt)"
    by (simp add: decrypt_def decrypt_try_def)
next
  assume a: "b64decode (strip c) = Inr raw \<and> length raw < SALT_SIZE + NONCE_SIZE"
  then have r: "b64decode (strip c) = Inr raw" and len: "length raw < SALT_SIZE + NONCE_SIZE"
    by simp_all
  have "\<exists>e. decrypt_try L c pw = Inl e"
  proof (cases "derive_key L pw (take SALT_SIZE raw)")
    case (Inl e)
    then show ?thesis by (simp add: decrypt_try_def r)
  next
    case key: (Inr key)
    show ?thesis
    proof (cases "AESGCM key")
      case (Inl e)
      then show ?thesis by (simp add: decrypt_try_def r key)
    next
      case (Inr aesgcm)
      from short_blob_fails [OF len, of L aesgcm] obtain e where
        "AESGCM_decrypt L aesgcm (take NONCE_SIZE (drop SALT_SIZE raw))
           (drop (SALT_SIZE + NONCE_SIZE) raw) = Inl e" ..
      then show ?thesis by (simp add: decrypt_try_def r key Inr)
    qed
  qed
  then show "decrypt L c pw = Inl (ValueError Msg_bad_password_or_corrupt)"
    by (auto simp: decrypt_def)
next
  assume "b64decode (strip c) = Inr raw \<and> derive_key L pw (take SALT_SIZE raw) = Inr key \<and>
    gcm_decrypt L key (take NONCE_SIZE (drop SALT_SIZE raw)) (drop (SALT_SIZE + NONCE_SIZE) raw) = None"
  then show "decrypt L c pw = Inl (ValueError Msg_bad_password_or_corrupt)"
    by (auto simp: decrypt_def decrypt_try_def Let_def AESGCM_decrypt_def AESGCM_def split: sum.splits)
next
  assume "utf8_encode pw = Inl e'"
  then show "decrypt L c pw = Inl (ValueError Msg_bad_password_or_corrupt)"
    by (auto simp: decrypt_def decrypt_try_def Let_def derive_key_def split: sum.splits)
next
  assume "decrypt L c pw = Inr p"
  then show "\<exists>raw key pt. b64decode (strip c) = Inr raw \<and> SALT_SIZE + NONCE_SIZE + 16 \<le> length raw \<and>
         derive_key L pw (take SALT_SIZE raw) = Inr key \<and>
         gcm_decrypt L key (take NONCE_SIZE (drop SALT_SIZE raw)) (drop (SALT_SIZE + NONCE_SIZE) raw) = Some pt \<and>
         utf8_decode pt = Inr p"
    by (auto simp: decrypt_def decrypt_try_def Let_def AESGCM_decrypt_def AESGCM_def
        split: sum.splits if_splits option.splits)
qed

theorem decrypt_failures_are_one_error_witness:
  "b64decode (strip (ascii ''QUJD'')) = Inr [65, 66, 67] \<and>
   decrypt standin_lib (ascii ''QUJD'') (ascii ''secret123'') = Inl (ValueError Msg_bad_password_or_corrupt) \<and>
   b64decode (strip (ascii ''QUJ'')) = Inl BinasciiError \<and>
   decrypt standin_lib (ascii ''QUJ'') (ascii ''secret123'') = Inl (ValueError Msg_bad_password_or_corrupt)"
proof -
  have 1: "b64decode (strip (ascii ''QUJD'')) = Inr [65, 66, 67]"
    by (simp add: crypto_eval str_eval)
  have 2: "b64decode (strip (ascii ''QUJ'')) = Inl BinasciiError"
    by (simp add: crypto_eval str_eval)
  have 3: "decrypt standin_lib (ascii ''QUJD'') (ascii ''secret123'')
      = Inl (ValueError Msg_bad_password_or_corrupt)"
    by (rule decrypt_failures_are_one_error
          [where raw = "[65, 66, 67]", THEN conjunct2, THEN conjunct2, THEN conjunct1, THEN mp])
       (simp add: 1 SALT_SIZE_def NONCE_SIZE_def)
  have 4: "decrypt standin_lib (ascii ''QUJ'') (ascii ''secret123'')
      = Inl (ValueError Msg_bad_password_or_corrupt)"
    by (rule decrypt_failures_are_one_error
          [where e' = BinasciiError, THEN conjunct2, THEN conjunct1, THEN mp])
       (rule 2)
  from 1 3 2 4 show ?thesis by simp
qed

section \<open>What a match captures\<close>

lemma first_some_Some: "first_some f xs = Some y \<Longrightarrow> \<exists>x \<in> set xs. f x = Some y"
  by (induction xs) (auto split: option.splits)

lemma counts_bounds: "k \<in> set (counts g mn run) \<Longrightarrow> mn \<le> k \<and> k \<le> run"
  by (cases g) (auto simp: counts_def)

lemma take_run:
  assumes "k \<le> length (takeWhile P s)"
  shows "length (take k s) = k \<and> list_all P (take k s)"
proof -
  have "take k s = take k (takeWhile P s @ dropWhile P s)" by simp
  also have "\<dots> = take k (takeWhile P s)"
    using assms by (simp del: takeWhile_dropWhile_id add: take_append)
  finally have eq: "take k s = take k (takeWhile P s)" .
  have "set (take k (takeWhile P s)) \<subseteq> set (takeWhile P s)" by (rule set_take_subset)
  then have "list_all P (take k (takeWhile P s))"
    by (auto simp: list_all_iff dest: set_takeWhileD)
  moreover have "length (take k (takeWhile P s)) = k" using assms by simp
  ultimately show ?thesis using eq by simp
qed

lemma bt_groups:
  "bt p s gs = Some (gs', rest) \<Longrightarrow> \<exists>new. gs' = gs @ new \<and> groups_of p new"
proof (induction p s gs arbitrary: gs' rest rule: bt.induct)
  case (1 s gs)
  then show ?case by simp
next
  case (2 l r s gs)
  then show ?case by (auto split: if_splits)
next
  case (3 cl mn g cap r s gs)
  from "3.prems" obtain k where k: "k \<in> set (counts g mn (length (takeWhile (in_class cl) s)))"
    and b: "bt r (drop k s) (if cap then gs @ [Some (take k s)] else gs) = Some (gs', rest)"
    by (auto dest: first_some_Some)
  from "3.IH" [OF b] obtain new where new:
    "gs' = (if cap then gs @ [Some (take k s)] else gs) @ new" "groups_of r new" by blast
  from k have kb: "mn \<le> k" "k \<le> length (takeWhile (in_class cl) s)"
    by (auto dest: counts_bounds)
  from take_run [OF kb(2)] have t: "length (take k s) = k" "list_all (in_class cl) (take k s)"
    by simp_all
  show ?case
  proof (cases cap)
    case True
    with new have "gs' = gs @ (Some (take k s) # new)" by simp
    moreover have "groups_of (Rep cl mn g cap # r) (Some (take k s) # new)"
      using True new(2) kb(1) t by simp
    ultimately show ?thesis by blast
  next
    case False
    with new show ?thesis by auto
  qed
next
  case (4 l r s gs)
  show ?case
  proof (cases "take (length l) s = l")
    case True
    show ?thesis
    proof (cases "bt r (drop (length l) s) (gs @ [Some l])")
      case None
      with True "4.prems" have "bt r s (gs @ [None]) = Some (gs', rest)" by simp
      from "4.IH"(2) [OF True None this] obtain new where
        "gs' = (gs @ [None]) @ new" "groups_of r new" by blast
      then have "gs' = gs @ (None # new) \<and> groups_of (OptLit l # r) (None # new)" by simp
      then show ?thesis by blast
    next
      case (Some res)
      with True "4.prems" have "bt r (drop (length l) s) (gs @ [Some l]) = Some (gs', rest)" by simp
      from "4.IH"(1) [OF True this] obtain new where
        "gs' = (gs @ [Some l]) @ new" "groups_of r new" by blast
      then have "gs' = gs @ (Some l # new) \<and> groups_of (OptLit l # r) (Some l # new)" by simp
      then show ?thesis by blast
    qed
  next
    case False
    with "4.prems" have "bt r s (gs @ [None]) = Some (gs', rest)" by simp
    from "4.IH"(3) [OF False this] obtain new where
      "gs' = (gs @ [None]) @ new" "groups_of r new" by blast
    then have "gs' = gs @ (None # new) \<and> groups_of (OptLit l # r) (None # new)" by simp
    then show ?thesis by blast
  qed
qed

lemma finditer_from_bt:
  "m \<in> set (finditer p s) \<Longrightarrow> \<exists>s' rest. bt p s' [] = Some (m, rest)"
proof (induction p s rule: finditer.induct)
  case (1 p s)
  show ?case
  proof (cases "bt p s []")
    case None
    show ?thesis
    proof (cases s)
      case Nil
      with None "1.prems" show ?thesis by (simp add: finditer.simps [of p "[]"])
    next
      case (Cons c cs)
      with None "1.prems" have "m \<in> set (finditer p cs)"
        by (simp add: finditer.simps [of p "c # cs"])
      with "1.IH"(1) [OF None Cons] show ?thesis .
    qed
  next
    case (Some a)
    obtain gs rest where a: "a = (gs, rest)" by (cases a)
    show ?thesis
    proof (cases "length rest < length s")
      case True
      with "1.prems" Some a have "m = gs \<or> m \<in> set (finditer p rest)"
        by (simp add: finditer.simps [of p s])
      with "1.IH"(2) [OF Some a [symmetric] True] Some a show ?thesis by blast
    next
      case False
      show ?thesis
      proof (cases s)
        case Nil
        with False "1.prems" Some a have "m = gs" by (simp add: finditer.simps [of p "[]"])
        with Some a show ?thesis by blast
      next
        case (Cons c cs)
        with False "1.prems" Some a have "m = gs \<or> m \<in> set (finditer p cs)"
          by (simp add: finditer.simps [of p "c # cs"])
        with "1.IH"(3) [OF Some a [symmetric] False Cons] Some a show ?thesis by blast
      qed
    qed
  qed
qed

lemma finditer_groups: "m \<in> set (finditer p s) \<Longrightarrow> groups_of p m"
  using finditer_from_bt [of m p s] bt_groups [of p _ "[]" m] by auto


section \<open>Parsing\<close>

lemma int_digits_Some: "list_all is_digit d \<Longrightarrow> \<exists>n. int_digits d acc = Some n"
  by (induction d arbitrary: acc) (auto simp: is_digit_def)

lemma py_int_cases: "py_int d = Inl (ValueError Msg_library) \<or> (\<exists>n. py_int d = Inr (int n))"
  by (auto simp: py_int_def split: option.splits)

lemma py_int_digits:
  "d \<noteq> [] \<Longrightarrow> list_all is_digit d \<Longrightarrow> length d \<le> int_max_str_digits \<Longrightarrow>
     \<exists>n. py_int d = Inr (int n)"
  using int_digits_Some [of d 0] by (auto simp: py_int_def)

lemma comment_match_shape: "groups_of comment_pattern m \<Longrightarrow> \<exists>g. m = [Some g]"
  by (auto simp: comment_pattern_def split: list.splits option.splits)

lemma block_match_shape:
  "groups_of block_pattern m \<Longrightarrow>
     \<exists>n l d e c. m = [Some n, Some l, Some d, e, Some c] \<and> n \<noteq> [] \<and> list_all (\<lambda>x. \<not> is_space x) n
       \<and> l \<noteq> [] \<and> list_all (\<lambda>x. \<not> is_space x) l \<and> d \<noteq> [] \<and> list_all is_digit d
       \<and> (e = None \<or> e = Some (ascii ''encrypted''))"
  by (auto simp: block_pattern_def list_all_iff split: list.splits option.splits)

lemma block_of_match_cases:
  assumes "groups_of block_pattern m"
  shows "block_of_match m = Inl (ValueError Msg_library) \<or> (\<exists>b. block_of_match m = Inr b)"
proof -
  from block_match_shape [OF assms] obtain n l d e c where
    m: "m = [Some n, Some l, Some d, e, Some c]" by blast
  from py_int_cases [of d] m show ?thesis
    by (auto simp: block_of_match_def group_def)
qed

lemma append_comments_ok:
  "\<forall>m \<in> set ms. \<exists>g. m = [Some g] \<Longrightarrow>
     append_comments ms f = (Inr (), f\<lparr>comments := comments f @ map (\<lambda>m. strip (the (group m 1))) ms\<rparr>)"
proof (induction ms arbitrary: f)
  case Nil
  then show ?case by simp
next
  case (Cons m ms)
  then obtain g where "m = [Some g]" by auto
  with Cons show ?case by (simp add: group_def)
qed

lemma append_blocks_eq:
  "append_blocks ms f =
     ((case dropWhile (\<lambda>m. \<not> isl (block_of_match m)) ms of
         [] \<Rightarrow> Inr ()
       | m # ms' \<Rightarrow> Inl (projl (block_of_match m))),
      f\<lparr>blocks := blocks f @
          map (\<lambda>m. projr (block_of_match m)) (takeWhile (\<lambda>m. \<not> isl (block_of_match m)) ms)\<rparr>)"
proof (induction ms arbitrary: f)
  case Nil
  then show ?case by simp
next
  case (Cons m ms)
  then show ?case by (cases "block_of_match m") simp_all
qed

lemma parse_eq:
  "parse f text =
     ((case dropWhile (\<lambda>m. \<not> isl (block_of_match m)) (finditer block_pattern text) of
         [] \<Rightarrow> Inr ()
       | m # ms' \<Rightarrow> Inl (projl (block_of_match m))),
      f\<lparr>blocks := map (\<lambda>m. projr (block_of_match m))
                   (takeWhile (\<lambda>m. \<not> isl (block_of_match m)) (finditer block_pattern text)),
        comments := map (\<lambda>m. strip (the (group m 1))) (finditer comment_pattern text)\<rparr>)"
proof -
  have c: "\<forall>m \<in> set (finditer comment_pattern text). \<exists>g. m = [Some g]"
    by (auto dest!: finditer_groups comment_match_shape)
  show ?thesis
    by (simp add: parse_def append_comments_ok [OF c] append_blocks_eq)
qed

text \<open>
  C10. \<open>_parse\<close> leaves the file with its blocks and comments replaced by what parsing the
  same text into a new, empty file gives, and returns or raises as it does there, whatever
  the file held before: one comment for each match of the comment pattern and one block
  for each match of the block pattern, in order, up to the first match whose type \<open>int\<close>
  does not convert (more digits than the interpreter accepts), where it raises. It returns
  exactly when there is no such match. \<open>load\<close> of a readable file does the same and sets
  the path.
\<close>

theorem parse_replaces_blocks_and_comments:
  "parse f text =
     (fst (parse (new_file None) text),
      f\<lparr>blocks := blocks (snd (parse (new_file None) text)),
        comments := comments (snd (parse (new_file None) text))\<rparr>) \<and>
   list_all2 (\<lambda>m b. block_of_match m = Inr b)
     (takeWhile (\<lambda>m. \<not> isl (block_of_match m)) (finditer block_pattern text))
     (blocks (snd (parse f text))) \<and>
   list_all2 (\<lambda>m c. \<exists>g. group m 1 = Some g \<and> c = strip g) (finditer comment_pattern text)
     (comments (snd (parse f text))) \<and>
   (fst (parse f text) = Inr () \<longleftrightarrow>
      list_all (\<lambda>m. \<not> isl (block_of_match m)) (finditer block_pattern text)) \<and>
   (fs q = Some (Inr text) \<and> (p = Some q \<and> q \<noteq> [] \<or> p = None \<and> path f = Some q) \<longrightarrow>
      load fs f p =
        (fst (parse (new_file None) text),
         f\<lparr>path := Some q, blocks := blocks (snd (parse (new_file None) text)),
           comments := comments (snd (parse (new_file None) text))\<rparr>))"
proof -
  let ?ok = "\<lambda>m. \<not> isl (block_of_match m)"
  let ?bm = "finditer block_pattern text"
  have c: "\<forall>m \<in> set (finditer comment_pattern text). \<exists>g. m = [Some g]"
    by (auto dest!: finditer_groups comment_match_shape)
  have 1: "parse f text =
     (fst (parse (new_file None) text),
      f\<lparr>blocks := blocks (snd (parse (new_file None) text)),
        comments := comments (snd (parse (new_file None) text))\<rparr>)" for f
    by (simp add: parse_eq [of f] parse_eq [of "new_file None"])
  have 2: "list_all2 (\<lambda>m b. block_of_match m = Inr b) (takeWhile ?ok ?bm)
     (blocks (snd (parse f text)))"
  proof -
    have "block_of_match m = Inr (projr (block_of_match m))"
      if "m \<in> set (takeWhile ?ok ?bm)" for m
      using set_takeWhileD [OF that] by (cases "block_of_match m") simp_all
    then show ?thesis by (simp add: parse_eq list_all2_conv_all_nth)
  qed
  have 3: "list_all2 (\<lambda>m c. \<exists>g. group m 1 = Some g \<and> c = strip g) (finditer comment_pattern text)
     (comments (snd (parse f text)))"
  proof -
    have "\<exists>g. group m 1 = Some g \<and> strip (the (group m 1)) = strip g"
      if "m \<in> set (finditer comment_pattern text)" for m
      using c that by (force simp: group_def)
    then show ?thesis by (simp add: parse_eq list_all2_conv_all_nth)
  qed
  have 4: "fst (parse f text) = Inr () \<longleftrightarrow> list_all ?ok ?bm"
  proof (cases "dropWhile ?ok ?bm")
    case Nil
    then have "list_all ?ok ?bm" by (simp add: list_all_iff)
    moreover have "fst (parse f text) = Inr ()"
      by (simp add: parse_eq Nil del: dropWhile_eq_Nil_conv)
    ultimately show ?thesis by simp
  next
    case (Cons m ms')
    then have "dropWhile ?ok ?bm \<noteq> []" by simp
    then have "\<not> list_all ?ok ?bm" by (simp add: list_all_iff)
    with Cons show ?thesis by (simp add: parse_eq)
  qed
  have 5: "fs q = Some (Inr text) \<and> (p = Some q \<and> q \<noteq> [] \<or> p = None \<and> path f = Some q) \<longrightarrow>
      load fs f p =
        (fst (parse (new_file None) text),
         f\<lparr>path := Some q, blocks := blocks (snd (parse (new_file None) text)),
           comments := comments (snd (parse (new_file None) text))\<rparr>)"
    by (auto simp: load_def 1 [of "f\<lparr>path := Some q\<rparr>"] 1 [of f])
  from 1 [of f] 2 3 4 5 show ?thesis by blast
qed


lemmas parse_eval = parse_def finditer.simps comment_pattern_def block_pattern_def counts_def
  group_def block_of_match_def py_int_def int_max_str_digits_def is_digit_def decimal_value_def
  decimal_zeros_def new_block_def new_file_def upt_rec

lemma parse_sample:
  "parse (new_file None) (ascii ''({< hi >}) (n:a l:b t:2 encrypted{QUJD})'') =
     (Inr (), \<lparr>path = None,
               blocks = [new_block (ascii ''a'') (ascii ''b'') 2 (ascii ''QUJD'') True],
               comments = [ascii ''hi'']\<rparr>)"
  by (simp add: parse_eval str_eval)

theorem parse_replaces_blocks_and_comments_witness:
  "load (\<lambda>q. if q = ascii ''f.jdat''
              then Some (Inr (ascii ''({< hi >}) (n:a l:b t:2 encrypted{QUJD})''))
              else None)
     user_file (Some (ascii ''f.jdat'')) =
   (Inr (), \<lparr>path = Some (ascii ''f.jdat''),
             blocks = [new_block (ascii ''a'') (ascii ''b'') 2 (ascii ''QUJD'') True],
             comments = [ascii ''hi'']\<rparr>)"
proof -
  let ?text = "ascii ''({< hi >}) (n:a l:b t:2 encrypted{QUJD})''"
  let ?fs = "\<lambda>q. if q = ascii ''f.jdat'' then Some (Inr ?text) else None"
  have "load ?fs user_file (Some (ascii ''f.jdat'')) =
      (fst (parse (new_file None) ?text),
       user_file\<lparr>path := Some (ascii ''f.jdat''),
                 blocks := blocks (snd (parse (new_file None) ?text)),
                 comments := comments (snd (parse (new_file None) ?text))\<rparr>)"
    by (rule parse_replaces_blocks_and_comments
          [THEN conjunct2, THEN conjunct2, THEN conjunct2, THEN conjunct2, THEN mp])
       (simp add: ascii_def)
  then show ?thesis by (simp add: parse_sample user_file_def)
qed

section \<open>Occurrences of a literal\<close>

lemma starts_append_left: "starts p u \<Longrightarrow> starts p (u @ t)"
proof -
  assume a: "starts p u"
  then have "length (take (length p) u) = length p" by (simp add: starts_def)
  then have "length p \<le> length u" by simp
  with a show ?thesis by (simp add: starts_def)
qed

lemma starts_cut:
  assumes "starts p (u @ t)" and "t \<noteq> []" and "hd t \<notin> set p"
  shows "starts p u"
proof (cases "length p \<le> length u")
  case True
  with assms(1) show ?thesis by (simp add: starts_def)
next
  case False
  then have "0 < length p - length u" by simp
  then have "take (length p - length u) t \<noteq> []" using assms(2) by (cases t) auto
  then have "hd t \<in> set (take (length p - length u) t)"
    using assms(2) by (cases t; cases "length p - length u") auto
  moreover from assms(1) have "p = take (length p) u @ take (length p - length u) t"
    by (simp add: starts_def)
  ultimately have "hd t \<in> set p" by (metis Un_iff set_append)
  with assms(3) show ?thesis by simp
qed

lemma none_starts_append:
  "none_starts p (a @ b) s \<longleftrightarrow> none_starts p a (b @ s) \<and> none_starts p b s"
  by (induction a) auto

lemma none_starts_if_not_contained:
  "\<not> contains p c \<Longrightarrow> t \<noteq> [] \<Longrightarrow> hd t \<notin> set p \<Longrightarrow> none_starts p c t"
proof (induction c)
  case Nil
  then show ?case by simp
next
  case (Cons x c)
  from Cons.prems have "\<not> starts p (x # c)" by simp
  with starts_cut [of p "x # c" t] Cons.prems have "\<not> starts p ((x # c) @ t)" by blast
  with Cons show ?case by simp
qed

lemma not_contained_if_none_starts: "none_starts p c t \<Longrightarrow> p \<noteq> [] \<Longrightarrow> \<not> contains p c"
proof (induction c)
  case Nil
  then show ?case by simp
next
  case (Cons x c)
  from Cons.prems have "\<not> starts p ((x # c) @ t)" by simp
  with starts_append_left [of p "x # c" t] have "\<not> starts p (x # c)" by blast
  with Cons show ?case by simp
qed

section \<open>Steps of the matcher\<close>

lemma first_some_append:
  "\<forall>j \<in> set xs. f j = None \<Longrightarrow> first_some f (xs @ ys) = first_some f ys"
  by (induction xs) auto

lemma first_some_first:
  "first_some f xs = Some y \<Longrightarrow>
     \<exists>pre k post. xs = pre @ k # post \<and> f k = Some y \<and> (\<forall>j \<in> set pre. f j = None)"
proof (induction xs)
  case Nil
  then show ?case by simp
next
  case (Cons x xs)
  show ?case
  proof (cases "f x")
    case None
    with Cons obtain pre k post where
      "xs = pre @ k # post" "f k = Some y" "\<forall>j \<in> set pre. f j = None" by auto
    with None have "x # xs = (x # pre) @ k # post \<and> f k = Some y \<and> (\<forall>j \<in> set (x # pre). f j = None)"
      by simp
    then show ?thesis by blast
  next
    case (Some z)
    with Cons.prems have "x # xs = [] @ x # xs \<and> f x = Some y \<and> (\<forall>j \<in> set []. f j = None)"
      by simp
    then show ?thesis by blast
  qed
qed

lemma run_length:
  "list_all P x \<Longrightarrow> s = [] \<or> \<not> P (hd s) \<Longrightarrow> length (takeWhile P (x @ s)) = length x"
proof (cases s)
  case Nil
  assume "list_all P x"
  with Nil show ?thesis
    by (simp add: takeWhile_eq_all_conv [THEN iffD2] list_all_iff)
next
  case (Cons c cs)
  assume "list_all P x" and "s = [] \<or> \<not> P (hd s)"
  with Cons have "takeWhile P (x @ s) = x @ takeWhile P (c # cs)" and "\<not> P c"
    by (simp_all add: takeWhile_append2 list_all_iff)
  then show ?thesis by simp
qed

lemma bt_lit: "bt (Lit l # r) (l @ s) gs = bt r s gs"
  by simp

lemma bt_greedy:
  assumes "list_all (in_class cl) x" and "mn \<le> length x"
    and "s = [] \<or> \<not> in_class cl (hd s)"
    and "bt r s (if cap then gs @ [Some x] else gs) = Some res"
  shows "bt (Rep cl mn Greedy cap # r) (x @ s) gs = Some res"
proof -
  have run: "length (takeWhile (in_class cl) (x @ s)) = length x"
    by (rule run_length [OF assms(1) assms(3)])
  have "counts Greedy mn (length x) = length x # rev [mn..<length x]"
    using assms(2) by (simp add: counts_def)
  then show ?thesis using assms(4) by (cases cap) (simp_all add: run)
qed

lemma bt_greedy_none:
  assumes "s = [] \<or> \<not> in_class cl (hd s)"
  shows "bt (Rep cl 0 Greedy False # r) s gs = bt r s gs"
proof -
  have "length (takeWhile (in_class cl) s) = 0"
    using assms by (cases s) auto
  then show ?thesis by (simp add: counts_def split: option.splits)
qed

lemma bt_opt_present:
  "bt r s (gs @ [Some l]) = Some res \<Longrightarrow> bt (OptLit l # r) (l @ s) gs = Some res"
  by simp

lemma bt_opt_absent: "\<not> starts l s \<Longrightarrow> bt (OptLit l # r) s gs = bt r s (gs @ [None])"
  by (simp add: starts_def)

lemma none_starts_nth:
  "none_starts p pre s \<Longrightarrow> j < length pre \<Longrightarrow> \<not> starts p (drop j (pre @ s))"
proof (induction pre arbitrary: j)
  case Nil
  then show ?case by simp
next
  case (Cons x pre)
  then show ?case by (cases j) auto
qed

lemma nth_none_starts:
  "(\<And>j. j < length pre \<Longrightarrow> \<not> starts p (drop j (pre @ s))) \<Longrightarrow> none_starts p pre s"
proof (induction pre)
  case Nil
  then show ?case by simp
next
  case (Cons x pre)
  have "\<not> starts p (x # pre @ s)" using Cons.prems [of 0] by simp
  moreover have "none_starts p pre s"
  proof (rule Cons.IH)
    fix j assume "j < length pre"
    then show "\<not> starts p (drop j (pre @ s))" using Cons.prems [of "Suc j"] by simp
  qed
  ultimately show ?case by simp
qed

lemma upt_split: "k \<le> n \<Longrightarrow> [0..<Suc n] = [0..<k] @ k # [Suc k..<Suc n]"
proof -
  assume k: "k \<le> n"
  then have "[0..<Suc n] = [0..<k + (Suc n - k)]" by simp
  also have "\<dots> = [0..<k] @ [k..<k + (Suc n - k)]" by (rule upt_add_eq_append) simp
  also have "[k..<k + (Suc n - k)] = k # [Suc k..<k + (Suc n - k)]"
    using k by (intro upt_conv_Cons) simp
  finally show ?thesis using k by simp
qed

lemma first_some_at:
  assumes "\<And>j. j < k \<Longrightarrow> f j = None" and "k \<le> n" and "f k = Some y"
  shows "first_some f [0..<Suc n] = Some y"
proof -
  have "first_some f [0..<Suc n] = first_some f ([0..<k] @ k # [Suc k..<Suc n])"
    by (simp only: upt_split [OF assms(2)])
  also have "\<dots> = first_some f (k # [Suc k..<Suc n])"
    by (rule first_some_append) (simp add: assms(1))
  also have "\<dots> = Some y"
    by (simp add: assms(3) del: upt_Suc)
  finally show ?thesis .
qed

lemma takeWhile_any: "takeWhile (in_class AnyChar) s = s"
  by (induction s) simp_all

lemma bt_lazy:
  assumes "none_starts l x (l @ rest)"
  shows "bt [Rep AnyChar 0 Lazy True, Lit l] (x @ l @ rest) gs = Some (gs @ [Some x], rest)"
proof -
  define s where "s = x @ l @ rest"
  have s1: "take (length l) (drop j s) \<noteq> l" if "j < length x" for j
    using none_starts_nth [OF assms that] by (simp add: starts_def s_def)
  have s2: "drop (length x) s = l @ rest" "take (length x) s = x" "length x \<le> length s"
    "drop (length l + length x) s = rest" "drop (length x + length l) s = rest"
    by (simp_all add: s_def)
  have "bt [Rep AnyChar 0 Lazy True, Lit l] s gs = Some (gs @ [Some x], rest)"
    apply (simp add: counts_def takeWhile_any del: upt_Suc)
    apply (rule first_some_at [where k = "length x"])
      apply (simp add: s1)
     apply (rule s2)
    apply (simp add: s2)
    done
  then show ?thesis by (simp only: s_def)
qed

section \<open>Decimal digits\<close>

lemma decimal_ascii: "d < 10 \<Longrightarrow> decimal_value (48 + d) = Some d"
  by (simp add: decimal_value_def decimal_zeros_def)

lemma not_digit_space: "\<not> is_digit 32"
  by (simp add: is_digit_def decimal_value_def decimal_zeros_def)

lemma not_digit_brace: "\<not> is_digit 123"
  by (simp add: is_digit_def decimal_value_def decimal_zeros_def)

lemma int_digits_append:
  "int_digits (xs @ ys) acc =
     (case int_digits xs acc of None \<Rightarrow> None | Some a \<Rightarrow> int_digits ys a)"
  by (induction xs arbitrary: acc) (auto split: option.splits)

lemma digits_of_nat_props:
  "digits_of_nat n \<noteq> [] \<and> list_all is_digit (digits_of_nat n) \<and>
   int_digits (digits_of_nat n) 0 = Some n"
proof (induction n rule: digits_of_nat.induct)
  case (1 n)
  show ?case
  proof (cases "n < 10")
    case True
    then have "decimal_value (48 + n) = Some n" by (simp add: decimal_ascii)
    moreover from this have "is_digit (48 + n)" by (simp add: is_digit_def)
    ultimately show ?thesis using True
      by (simp add: digits_of_nat.simps [of n])
  next
    case False
    with 1 have IH: "digits_of_nat (n div 10) \<noteq> []"
      "list_all is_digit (digits_of_nat (n div 10))"
      "int_digits (digits_of_nat (n div 10)) 0 = Some (n div 10)"
      by simp_all
    have d: "decimal_value (48 + n mod 10) = Some (n mod 10)"
      by (rule decimal_ascii) simp
    from d have dd: "is_digit (48 + n mod 10)" by (simp add: is_digit_def)
    show ?thesis
      using False IH d dd
      by (simp add: digits_of_nat.simps [of n] int_digits_append)
  qed
qed

lemma decimal_value_less: "decimal_value c = Some v \<Longrightarrow> v < 10"
  by (auto simp: decimal_value_def find_Some_iff split: option.splits)

lemma int_digits_less:
  "int_digits d acc = Some n \<Longrightarrow> n < (acc + 1) * 10 ^ length d"
proof (induction d arbitrary: acc)
  case Nil
  then show ?case by simp
next
  case (Cons c d)
  from Cons.prems obtain v where v: "decimal_value c = Some v"
    and r: "int_digits d (10 * acc + v) = Some n"
    by (auto split: option.splits)
  from decimal_value_less [OF v] have "10 * acc + v + 1 \<le> (acc + 1) * 10" by simp
  then have "(10 * acc + v + 1) * 10 ^ length d \<le> ((acc + 1) * 10) * 10 ^ length d"
    by (rule mult_le_mono1)
  with Cons.IH [OF r] have "n < ((acc + 1) * 10) * 10 ^ length d" by (rule less_le_trans)
  also have "\<dots> = (acc + 1) * 10 ^ length (c # d)" by (simp only: mult.assoc list.size power_Suc) simp
  finally show ?case .
qed

lemma length_digits_of_nat: "n < 10 ^ k \<Longrightarrow> 0 < k \<Longrightarrow> length (digits_of_nat n) \<le> k"
proof (induction n arbitrary: k rule: digits_of_nat.induct)
  case (1 n)
  show ?case
  proof (cases "n < 10")
    case True
    with "1.prems" show ?thesis by (simp add: digits_of_nat.simps [of n])
  next
    case False
    obtain j where k: "k = Suc j" using "1.prems"(2) by (cases k) auto
    from "1.prems"(1) k have d: "n div 10 < 10 ^ j" by simp
    have "0 < j"
    proof (rule ccontr)
      assume "\<not> 0 < j"
      with "1.prems"(1) k False show False by simp
    qed
    from "1.IH" [OF False d this] k False show ?thesis
      by (simp add: digits_of_nat.simps [of n])
  qed
qed

lemma py_int_Inr:
  assumes "py_int d = Inr t"
  shows "0 \<le> t \<and> length (digits_of_nat (nat t)) \<le> int_max_str_digits"
proof -
  from assms obtain n where d: "d \<noteq> []" "length d \<le> int_max_str_digits"
    and n: "int_digits d 0 = Some n" and t: "t = int n"
    by (auto simp: py_int_def split: if_splits option.splits)
  from int_digits_less [OF n] have "n < 10 ^ length d" by simp
  moreover from d(1) have "0 < length d" by simp
  ultimately have "length (digits_of_nat n) \<le> length d" by (rule length_digits_of_nat)
  with d(2) t show ?thesis by simp
qed

lemma str_of_int_Inr:
  "0 \<le> t \<Longrightarrow> length (digits_of_nat (nat t)) \<le> int_max_str_digits \<Longrightarrow>
     str_of_int t = Inr (digits_of_nat (nat t))"
  by (simp add: str_of_int_def Let_def)

lemma py_int_digits_of_nat:
  "0 \<le> t \<Longrightarrow> length (digits_of_nat (nat t)) \<le> int_max_str_digits \<Longrightarrow>
     py_int (digits_of_nat (nat t)) = Inr t"
  using digits_of_nat_props [of "nat t"] by (simp add: py_int_def)

section \<open>The match of a serialized block\<close>

lemma bt_greedy_group:
  "list_all (in_class cl) x \<Longrightarrow> mn \<le> length x \<Longrightarrow> s = [] \<or> \<not> in_class cl (hd s) \<Longrightarrow>
     bt r s (gs @ [Some x]) = Some res \<Longrightarrow> bt (Rep cl mn Greedy True # r) (x @ s) gs = Some res"
  using bt_greedy [of cl x mn s r True gs res] by simp

lemma bt_greedy_plain:
  "list_all (in_class cl) x \<Longrightarrow> mn \<le> length x \<Longrightarrow> s = [] \<or> \<not> in_class cl (hd s) \<Longrightarrow>
     bt r s gs = Some res \<Longrightarrow> bt (Rep cl mn Greedy False # r) (x @ s) gs = Some res"
  using bt_greedy [of cl x mn s r False gs res] by simp

lemma bt_lazy_res:
  "none_starts l x (l @ rest) \<Longrightarrow> res = (gs @ [Some x], rest) \<Longrightarrow>
     bt [Rep AnyChar 0 Lazy True, Lit l] (x @ l @ rest) gs = Some res"
  by (simp only: bt_lazy)

lemma match_tail:
  assumes "none_starts (ascii ''})'') c (ascii ''})'' @ rest)"
  shows "bt [Rep Space 0 Greedy False, Lit (ascii ''{''), Rep AnyChar 0 Lazy True, Lit (ascii ''})'')]
           (ascii ''{'' @ c @ ascii ''})'' @ rest) gs = Some (gs @ [Some c], rest)"
  apply (subst bt_greedy_none)
   apply (simp add: ascii_def is_space_def)
  apply (subst bt_lit)
  apply (rule bt_lazy_res [OF assms])
  apply simp
  done

lemma match_head:
  assumes "n \<noteq> []" "list_all (\<lambda>x. \<not> is_space x) n" "l \<noteq> []" "list_all (\<lambda>x. \<not> is_space x) l"
    and "d \<noteq> []" "list_all is_digit d" and "s = [] \<or> \<not> is_digit (hd s)"
    and "bt r s [Some n, Some l, Some d] = Some res"
  shows "bt (Lit (ascii ''(n:'') # Rep NonSpace 1 Greedy True # Rep Space 1 Greedy False #
             Lit (ascii ''l:'') # Rep NonSpace 1 Greedy True # Rep Space 1 Greedy False #
             Lit (ascii ''t:'') # Rep Digit 1 Greedy True # r)
           (ascii ''(n:'' @ n @ [32] @ ascii ''l:'' @ l @ [32] @ ascii ''t:'' @ d @ s) [] = Some res"
proof -
  have cn: "list_all (in_class NonSpace) n" "1 \<le> length n"
    using assms(1,2) by (cases n; simp add: list_all_iff)+
  have cl: "list_all (in_class NonSpace) l" "1 \<le> length l"
    using assms(3,4) by (cases l; simp add: list_all_iff)+
  have cd: "list_all (in_class Digit) d" "1 \<le> length d"
    using assms(5,6) by (cases d; simp add: list_all_iff)+
  have sp: "list_all (in_class Space) [32]" "1 \<le> length [32::nat]"
    by (simp_all add: is_space_def)
  have sd: "s = [] \<or> \<not> in_class Digit (hd s)" using assms(7) by simp
  have a8: "bt r s ((([] @ [Some n]) @ [Some l]) @ [Some d]) = Some res"
    using assms(8) by simp
  have s8: "bt (Rep Digit 1 Greedy True # r) (d @ s) (([] @ [Some n]) @ [Some l]) = Some res"
    by (rule bt_greedy_group [OF cd sd a8])
  have s7: "bt (Lit (ascii ''t:'') # Rep Digit 1 Greedy True # r) (ascii ''t:'' @ d @ s)
      (([] @ [Some n]) @ [Some l]) = Some res"
    by (simp only: bt_lit s8)
  have s6: "bt (Rep Space 1 Greedy False # Lit (ascii ''t:'') # Rep Digit 1 Greedy True # r)
      ([32] @ ascii ''t:'' @ d @ s) (([] @ [Some n]) @ [Some l]) = Some res"
    by (rule bt_greedy_plain [OF sp _ s7]) (simp add: ascii_def is_space_def)
  have s5: "bt (Rep NonSpace 1 Greedy True # Rep Space 1 Greedy False # Lit (ascii ''t:'') #
        Rep Digit 1 Greedy True # r)
      (l @ [32] @ ascii ''t:'' @ d @ s) ([] @ [Some n]) = Some res"
    by (rule bt_greedy_group [OF cl _ s6]) (simp add: is_space_def)
  have s4: "bt (Lit (ascii ''l:'') # Rep NonSpace 1 Greedy True # Rep Space 1 Greedy False #
        Lit (ascii ''t:'') # Rep Digit 1 Greedy True # r)
      (ascii ''l:'' @ l @ [32] @ ascii ''t:'' @ d @ s) ([] @ [Some n]) = Some res"
    by (simp only: bt_lit s5)
  have s3: "bt (Rep Space 1 Greedy False # Lit (ascii ''l:'') # Rep NonSpace 1 Greedy True #
        Rep Space 1 Greedy False # Lit (ascii ''t:'') # Rep Digit 1 Greedy True # r)
      ([32] @ ascii ''l:'' @ l @ [32] @ ascii ''t:'' @ d @ s) ([] @ [Some n]) = Some res"
    by (rule bt_greedy_plain [OF sp _ s4]) (simp add: ascii_def is_space_def)
  have s2: "bt (Rep NonSpace 1 Greedy True # Rep Space 1 Greedy False # Lit (ascii ''l:'') #
        Rep NonSpace 1 Greedy True # Rep Space 1 Greedy False # Lit (ascii ''t:'') #
        Rep Digit 1 Greedy True # r)
      (n @ [32] @ ascii ''l:'' @ l @ [32] @ ascii ''t:'' @ d @ s) [] = Some res"
    by (rule bt_greedy_group [OF cn _ s3]) (simp add: is_space_def)
  show ?thesis
    by (simp only: bt_lit s2)
qed

section \<open>The text of a block\<close>

lemma block_to_jdat_wf:
  assumes "wf_block b"
  shows "block_to_jdat b =
     (Inr (ascii ''(n:'' @ name b @ [32] @ ascii ''l:'' @ link b @ [32] @ ascii ''t:'' @
           digits_of_nat (nat (btype b)) @
           (if encrypted b then [32] @ ascii ''encrypted'' else if btype b = 1 then [32] else []) @
           ascii ''{'' @ (10 # content b @ [10]) @ ascii ''})''), b)"
proof -
  from assms have "str_of_int (btype b) = Inr (digits_of_nat (nat (btype b)))"
    by (simp add: wf_block_def str_of_int_Inr)
  moreover from assms have "data b = None" by (simp add: wf_block_def)
  ultimately show ?thesis
    by (cases "btype b = 1") (auto simp: block_to_jdat_def rebuild_content_def ascii_def)
qed

lemma wrapped_content:
  assumes "\<not> contains (ascii ''})'') c"
  shows "none_starts (ascii ''})'') (10 # c @ [10]) (ascii ''})'' @ rest)"
proof -
  have "none_starts (ascii ''})'') c ([10] @ ascii ''})'' @ rest)"
    by (rule none_starts_if_not_contained [OF assms]) (simp_all add: ascii_def)
  then show ?thesis
    by (simp add: none_starts_append starts_def ascii_def)
qed

lemma match_mid_encrypted:
  assumes "none_starts (ascii ''})'') c (ascii ''})'' @ rest)"
  shows "bt [Rep Space 0 Greedy False, OptLit (ascii ''encrypted''), Rep Space 0 Greedy False,
             Lit (ascii ''{''), Rep AnyChar 0 Lazy True, Lit (ascii ''})'')]
           ([32] @ ascii ''encrypted'' @ ascii ''{'' @ c @ ascii ''})'' @ rest) gs =
         Some ((gs @ [Some (ascii ''encrypted'')]) @ [Some c], rest)"
proof -
  have t: "bt [Rep Space 0 Greedy False, Lit (ascii ''{''), Rep AnyChar 0 Lazy True,
               Lit (ascii ''})'')]
             (ascii ''{'' @ c @ ascii ''})'' @ rest) (gs @ [Some (ascii ''encrypted'')]) =
           Some ((gs @ [Some (ascii ''encrypted'')]) @ [Some c], rest)"
    by (rule match_tail [OF assms])
  have o: "bt [OptLit (ascii ''encrypted''), Rep Space 0 Greedy False,
               Lit (ascii ''{''), Rep AnyChar 0 Lazy True, Lit (ascii ''})'')]
             (ascii ''encrypted'' @ ascii ''{'' @ c @ ascii ''})'' @ rest) gs =
           Some ((gs @ [Some (ascii ''encrypted'')]) @ [Some c], rest)"
    by (rule bt_opt_present [OF t])
  show ?thesis
    by (rule bt_greedy_plain [OF _ _ _ o]) (simp_all add: is_space_def ascii_def)
qed

lemma match_mid_plain:
  assumes "none_starts (ascii ''})'') c (ascii ''})'' @ rest)"
    and "sp = [32] \<or> sp = []"
  shows "bt [Rep Space 0 Greedy False, OptLit (ascii ''encrypted''), Rep Space 0 Greedy False,
             Lit (ascii ''{''), Rep AnyChar 0 Lazy True, Lit (ascii ''})'')]
           (sp @ ascii ''{'' @ c @ ascii ''})'' @ rest) gs =
         Some ((gs @ [None]) @ [Some c], rest)"
proof -
  have t: "bt [Rep Space 0 Greedy False, Lit (ascii ''{''), Rep AnyChar 0 Lazy True,
               Lit (ascii ''})'')]
             (ascii ''{'' @ c @ ascii ''})'' @ rest) (gs @ [None]) =
           Some ((gs @ [None]) @ [Some c], rest)"
    by (rule match_tail [OF assms(1)])
  have n: "\<not> starts (ascii ''encrypted'') (ascii ''{'' @ c @ ascii ''})'' @ rest)"
    by (simp add: starts_def ascii_def)
  have o: "bt [OptLit (ascii ''encrypted''), Rep Space 0 Greedy False,
               Lit (ascii ''{''), Rep AnyChar 0 Lazy True, Lit (ascii ''})'')]
             (ascii ''{'' @ c @ ascii ''})'' @ rest) gs =
           Some ((gs @ [None]) @ [Some c], rest)"
    by (simp only: bt_opt_absent [OF n] t)
  from assms(2) show ?thesis
  proof
    assume "sp = [32]"
    then show ?thesis
      using bt_greedy_plain [of Space "[32]" 0 "ascii ''{'' @ c @ ascii ''})'' @ rest" _ gs, OF _ _ _ o]
      by (simp add: is_space_def ascii_def)
  next
    assume sp: "sp = []"
    have "bt [Rep Space 0 Greedy False, OptLit (ascii ''encrypted''), Rep Space 0 Greedy False,
             Lit (ascii ''{''), Rep AnyChar 0 Lazy True, Lit (ascii ''})'')]
           (ascii ''{'' @ c @ ascii ''})'' @ rest) gs =
          bt [OptLit (ascii ''encrypted''), Rep Space 0 Greedy False,
             Lit (ascii ''{''), Rep AnyChar 0 Lazy True, Lit (ascii ''})'')]
           (ascii ''{'' @ c @ ascii ''})'' @ rest) gs"
      by (rule bt_greedy_none) (simp add: is_space_def ascii_def)
    with o sp show ?thesis by simp
  qed
qed

lemma bt_block:
  assumes "wf_block b"
  shows "bt block_pattern (projr (fst (block_to_jdat b)) @ rest) [] = Some (block_groups b, rest)"
proof -
  let ?c = "10 # content b @ [10]"
  let ?d = "digits_of_nat (nat (btype b))"
  let ?mid = "if encrypted b then [32] @ ascii ''encrypted'' else if btype b = 1 then [32] else []"
  let ?s = "?mid @ ascii ''{'' @ ?c @ ascii ''})'' @ rest"
  let ?r = "[Rep Space 0 Greedy False, OptLit (ascii ''encrypted''), Rep Space 0 Greedy False,
             Lit (ascii ''{''), Rep AnyChar 0 Lazy True, Lit (ascii ''})'')]"
  from assms have w: "name b \<noteq> []" "list_all (\<lambda>x. \<not> is_space x) (name b)"
    "link b \<noteq> []" "list_all (\<lambda>x. \<not> is_space x) (link b)"
    "\<not> contains (ascii ''})'') (content b)"
    by (simp_all add: wf_block_def)
  have ns: "none_starts (ascii ''})'') ?c (ascii ''})'' @ rest)"
    by (rule wrapped_content [OF w(5)])
  have mid: "bt ?r ?s [Some (name b), Some (link b), Some ?d] = Some (block_groups b, rest)"
  proof (cases "encrypted b")
    case True
    with match_mid_encrypted [OF ns, of "[Some (name b), Some (link b), Some ?d]"]
    show ?thesis by (simp add: block_groups_def)
  next
    case False
    have "bt ?r ((if btype b = 1 then [32] else []) @ ascii ''{'' @ ?c @ ascii ''})'' @ rest)
            [Some (name b), Some (link b), Some ?d] =
          Some (([Some (name b), Some (link b), Some ?d] @ [None]) @ [Some ?c], rest)"
      by (rule match_mid_plain [OF ns]) simp
    with False show ?thesis by (simp add: block_groups_def)
  qed
  have dg: "?d \<noteq> []" "list_all is_digit ?d"
    using digits_of_nat_props [of "nat (btype b)"] by simp_all
  have nd: "?s = [] \<or> \<not> is_digit (hd ?s)"
    by (simp add: ascii_def not_digit_space not_digit_brace)
  have "bt block_pattern
          (ascii ''(n:'' @ name b @ [32] @ ascii ''l:'' @ link b @ [32] @ ascii ''t:'' @ ?d @ ?s) [] =
        Some (block_groups b, rest)"
    unfolding block_pattern_def
    by (rule match_head [OF w(1) w(2) w(3) w(4) dg nd mid])
  then show ?thesis by (simp add: block_to_jdat_wf [OF assms])
qed

section \<open>The matches in the text of a file\<close>

lemma finditer_match:
  "bt p s [] = Some (gs, rest) \<Longrightarrow> length rest < length s \<Longrightarrow>
     finditer p s = gs # finditer p rest"
  by (simp add: finditer.simps [of p s])

lemma bt_block_None: "\<not> starts (ascii ''(n:'') s \<Longrightarrow> bt block_pattern s [] = None"
  by (simp add: block_pattern_def starts_def)

lemma finditer_skip:
  "none_starts (ascii ''(n:'') pre s \<Longrightarrow>
     finditer block_pattern (pre @ s) = finditer block_pattern s"
proof (induction pre)
  case Nil
  then show ?case by simp
next
  case (Cons x pre)
  then have "bt block_pattern (x # pre @ s) [] = None" by (simp add: bt_block_None)
  then have "finditer block_pattern (x # pre @ s) = finditer block_pattern (pre @ s)"
    by (simp add: finditer.simps [of block_pattern "x # pre @ s"])
  with Cons show ?case by simp
qed

lemma finditer_end: "finditer block_pattern [10] = []"
proof -
  have "none_starts (ascii ''(n:'') [10] []" by (simp add: starts_def ascii_def)
  from finditer_skip [OF this] have "finditer block_pattern [10] = finditer block_pattern []"
    by simp
  also have "\<dots> = []"
    by (simp add: finditer.simps [of block_pattern "[]"] bt_block_None starts_def ascii_def)
  finally show ?thesis .
qed

lemma finditer_sep:
  "finditer block_pattern ([10, 10] @ s) = finditer block_pattern s"
  by (rule finditer_skip) (simp add: starts_def ascii_def)

lemma finditer_after:
  "finditer block_pattern (if xs = [] then [10] else [10, 10] @ join [10, 10] xs @ [10]) =
     finditer block_pattern (join [10, 10] xs @ [10])"
  by (simp only: finditer_sep split: if_split) simp

lemma join_tail:
  "join [10, 10] (x # xs) @ [10] =
     x @ (if xs = [] then [10] else [10, 10] @ join [10, 10] xs @ [10])"
  by (simp add: join_Cons)

lemma finditer_blocks:
  "\<forall>b \<in> set bs. wf_block b \<Longrightarrow>
     finditer block_pattern
       (join [10, 10] (map (\<lambda>b. projr (fst (block_to_jdat b))) bs) @ [10]) =
     map block_groups bs"
proof (induction bs)
  case Nil
  then show ?case by (simp add: finditer_end)
next
  case (Cons b bs)
  let ?ts = "map (\<lambda>b. projr (fst (block_to_jdat b))) bs"
  let ?t = "projr (fst (block_to_jdat b))"
  let ?rest = "if ?ts = [] then [10] else [10, 10] @ join [10, 10] ?ts @ [10]"
  from Cons.prems have w: "wf_block b" by simp
  have m: "bt block_pattern (?t @ ?rest) [] = Some (block_groups b, ?rest)"
    by (rule bt_block [OF w])
  have "?t \<noteq> []" by (simp add: block_to_jdat_wf [OF w] ascii_def)
  then have "length ?rest < length (?t @ ?rest)" by simp
  from finditer_match [OF m this]
  have "finditer block_pattern (?t @ ?rest) = block_groups b # finditer block_pattern ?rest" .
  also have "finditer block_pattern ?rest = finditer block_pattern (join [10, 10] ?ts @ [10])"
    by (rule finditer_after)
  also have "\<dots> = map block_groups bs" using Cons by simp
  finally show ?case by (simp only: list.map join_tail)
qed

lemma finditer_comments:
  "\<forall>c \<in> set cs. \<not> contains (ascii ''(n:'') c \<Longrightarrow>
     finditer block_pattern
       (join [10, 10] (map (\<lambda>c. ascii ''({<'' @ c @ ascii ''>})'') cs @ ts) @ [10]) =
     finditer block_pattern (join [10, 10] ts @ [10])"
proof (induction cs)
  case Nil
  then show ?case by simp
next
  case (Cons c cs)
  let ?xs = "map (\<lambda>c. ascii ''({<'' @ c @ ascii ''>})'') cs @ ts"
  let ?rest = "if ?xs = [] then [10] else [10, 10] @ join [10, 10] ?xs @ [10]"
  from Cons.prems have c: "\<not> contains (ascii ''(n:'') c" by simp
  have "none_starts (ascii ''(n:'') c (ascii ''>})'' @ ?rest)"
    by (rule none_starts_if_not_contained [OF c]) (simp_all add: ascii_def)
  then have "none_starts (ascii ''(n:'') (ascii ''({<'' @ c @ ascii ''>})'') ?rest"
    by (simp add: none_starts_append) (simp add: starts_def ascii_def)
  from finditer_skip [OF this]
  have "finditer block_pattern ((ascii ''({<'' @ c @ ascii ''>})'') @ ?rest) =
        finditer block_pattern ?rest" .
  also have "\<dots> = finditer block_pattern (join [10, 10] ?xs @ [10])"
    by (rule finditer_after)
  also have "\<dots> = finditer block_pattern (join [10, 10] ts @ [10])" using Cons by simp
  finally show ?case by (simp only: list.map append_Cons join_tail)
qed

section \<open>The blocks that parsing builds\<close>

lemma bt_suffix:
  "bt (p @ q) s gs = Some res \<Longrightarrow> \<exists>s' gs'. bt q s' gs' = Some res"
proof (induction p arbitrary: s gs)
  case Nil
  then show ?case by auto
next
  case (Cons i p)
  show ?case
  proof (cases i)
    case (Lit l)
    with Cons.prems have "bt (p @ q) (drop (length l) s) gs = Some res"
      by (simp split: if_splits)
    then show ?thesis by (rule Cons.IH)
  next
    case (Rep cl mn g cap)
    with Cons.prems obtain k where
      "bt (p @ q) (drop k s) (if cap then gs @ [Some (take k s)] else gs) = Some res"
      by (auto dest: first_some_Some)
    then show ?thesis by (rule Cons.IH)
  next
    case (OptLit l)
    with Cons.prems have
      "bt (p @ q) (drop (length l) s) (gs @ [Some l]) = Some res \<or>
       bt (p @ q) s (gs @ [None]) = Some res"
      by (auto split: if_splits option.splits)
    then show ?thesis using Cons.IH by blast
  qed
qed

lemma upt_prefix: "[0..<m] = pre @ k # post \<Longrightarrow> pre = [0..<k]"
proof -
  assume a: "[0..<m] = pre @ k # post"
  then have "length [0..<m] = length (pre @ k # post)" by (rule arg_cong)
  then have lt: "length pre < m" by simp
  then have "[0..<m] ! length pre = length pre" by simp
  with a have k: "length pre = k" by simp
  from a have "take (length pre) [0..<m] = pre" by simp
  moreover have "take (length pre) [0..<m] = [0..<length pre]"
    using lt by (simp add: take_upt)
  ultimately show ?thesis using k by simp
qed

lemma bt_lazy_last:
  assumes "bt [Rep AnyChar 0 Lazy True, Lit l] s gs = Some (gs', rest)" and "l \<noteq> []"
  shows "\<exists>x. gs' = gs @ [Some x] \<and> \<not> contains l x"
proof -
  let ?f = "\<lambda>k. bt [Lit l] (drop k s) (gs @ [Some (take k s)])"
  from assms(1) have "first_some ?f [0..<Suc (length s)] = Some (gs', rest)"
    by (simp add: counts_def takeWhile_any del: upt_Suc bt.simps(2))
  from first_some_first [OF this] obtain pre k post where
    u: "[0..<Suc (length s)] = pre @ k # post" and fk: "?f k = Some (gs', rest)"
    and n: "\<forall>j \<in> set pre. ?f j = None" by blast
  from upt_prefix [OF u] have pre: "pre = [0..<k]" .
  from u have "k \<in> set [0..<Suc (length s)]" by simp
  then have kl: "k \<le> length s" by auto
  from fk have g: "gs' = gs @ [Some (take k s)]" by (simp split: if_splits)
  have "\<not> starts l (drop j (take k s @ drop k s))" if "j < length (take k s)" for j
  proof -
    from that have "j < k" by simp
    with n pre have "?f j = None" by simp
    then show ?thesis by (simp add: starts_def split: if_splits)
  qed
  then have "none_starts l (take k s) (drop k s)" by (rule nth_none_starts)
  then have "\<not> contains l (take k s)" using assms(2) by (rule not_contained_if_none_starts)
  with g show ?thesis by blast
qed

lemma block_match_content:
  assumes "bt block_pattern s [] = Some (m, rest)"
  shows "\<exists>gs x. m = gs @ [Some x] \<and> \<not> contains (ascii ''})'') x"
proof -
  have "block_pattern =
      [Lit (ascii ''(n:''), Rep NonSpace 1 Greedy True, Rep Space 1 Greedy False,
       Lit (ascii ''l:''), Rep NonSpace 1 Greedy True, Rep Space 1 Greedy False,
       Lit (ascii ''t:''), Rep Digit 1 Greedy True, Rep Space 0 Greedy False,
       OptLit (ascii ''encrypted''), Rep Space 0 Greedy False, Lit (ascii ''{'')] @
      [Rep AnyChar 0 Lazy True, Lit (ascii ''})'')]"
    by (simp add: block_pattern_def)
  with assms bt_suffix obtain s' gs' where
    "bt [Rep AnyChar 0 Lazy True, Lit (ascii ''})'')] s' gs' = Some (m, rest)" by metis
  from bt_lazy_last [OF this] show ?thesis by (auto simp: ascii_def)
qed

lemma parsed_block_wf:
  assumes "m \<in> set (finditer block_pattern text)" and "block_of_match m = Inr b"
  shows "wf_block b"
proof -
  from finditer_from_bt [OF assms(1)] obtain s rest where
    bt: "bt block_pattern s [] = Some (m, rest)" by blast
  from bt_groups [OF bt] have "groups_of block_pattern m" by simp
  from block_match_shape [OF this] obtain n l d e c where
    m: "m = [Some n, Some l, Some d, e, Some c]" and
    n: "n \<noteq> []" "list_all (\<lambda>x. \<not> is_space x) n" and
    l: "l \<noteq> []" "list_all (\<lambda>x. \<not> is_space x) l" by blast
  from block_match_content [OF bt] m have c: "\<not> contains (ascii ''})'') c" by auto
  from assms(2) m obtain t where t: "py_int d = Inr t" and
    b: "b = new_block n l t c
          (case e of None \<Rightarrow> False | Some g \<Rightarrow> if g = [] then False else g = ascii ''encrypted'')"
    by (auto simp: block_of_match_def group_def split: sum.splits)
  from py_int_Inr [OF t] n l c b show ?thesis
    by (simp add: wf_block_def new_block_def)
qed

lemma block_of_match_groups:
  assumes "wf_block b"
  shows "block_of_match (block_groups b) = Inr (b\<lparr>content := 10 # content b @ [10]\<rparr>)"
proof -
  from assms have "py_int (digits_of_nat (nat (btype b))) = Inr (btype b)"
    by (simp add: wf_block_def py_int_digits_of_nat)
  moreover from assms have "data b = None" by (simp add: wf_block_def)
  ultimately show ?thesis
    by (simp add: block_of_match_def block_groups_def group_def new_block_def ascii_def)
qed

lemma blocks_to_jdat_wf:
  "\<forall>b \<in> set bs. wf_block b \<Longrightarrow>
     blocks_to_jdat bs = (Inr (map (\<lambda>b. projr (fst (block_to_jdat b))) bs), bs)"
proof (induction bs)
  case Nil
  then show ?case by simp
next
  case (Cons b bs)
  then have "wf_block b" by simp
  from block_to_jdat_wf [OF this] Cons show ?case by simp
qed

lemma parsed_blocks_wf: "\<forall>b \<in> set (blocks (snd (parse f text))). wf_block b"
proof
  fix b assume "b \<in> set (blocks (snd (parse f text)))"
  then obtain m where m: "m \<in> set (finditer block_pattern text)"
    "\<not> isl (block_of_match m)" "b = projr (block_of_match m)"
    by (auto simp: parse_eq dest: set_takeWhileD)
  then have "block_of_match m = Inr b" by (cases "block_of_match m") simp_all
  with m(1) show "wf_block b" by (rule parsed_block_wf)
qed

lemma reparse:
  assumes "\<forall>c \<in> set (comments (snd (parse f text))). \<not> contains (ascii ''(n:'') c"
  shows "\<exists>out. to_jdat (snd (parse f text)) = (Inr out, snd (parse f text)) \<and>
           fst (parse g out) = Inr () \<and>
           blocks (snd (parse g out)) =
             map (\<lambda>b. b\<lparr>content := 10 # content b @ [10]\<rparr>) (blocks (snd (parse f text)))"
proof -
  define F where "F = snd (parse f text)"
  define out where "out =
    join [10, 10] (map (\<lambda>c. ascii ''({<'' @ c @ ascii ''>})'') (comments F) @
                   map (\<lambda>b. projr (fst (block_to_jdat b))) (blocks F)) @ [10]"
  have c: "\<forall>c \<in> set (comments F). \<not> contains (ascii ''(n:'') c"
    using assms by (simp only: F_def)
  have w: "\<forall>b \<in> set (blocks F). wf_block b"
    unfolding F_def by (rule parsed_blocks_wf)
  have 1: "to_jdat F = (Inr out, F)"
    by (simp add: to_jdat_def blocks_to_jdat_wf [OF w] out_def)
  have ms: "finditer block_pattern out = map block_groups (blocks F)"
    unfolding out_def by (simp only: finditer_comments [OF c] finditer_blocks [OF w])
  have ok: "\<not> isl (block_of_match m)" if "m \<in> set (finditer block_pattern out)" for m
    using that w by (auto simp: ms block_of_match_groups)
  then have tk: "takeWhile (\<lambda>m. \<not> isl (block_of_match m)) (finditer block_pattern out) =
      finditer block_pattern out"
    and dr: "dropWhile (\<lambda>m. \<not> isl (block_of_match m)) (finditer block_pattern out) = []"
    by simp_all
  have 2: "fst (parse g out) = Inr ()"
    by (simp add: parse_eq dr del: dropWhile_eq_Nil_conv)
  have 3: "blocks (snd (parse g out)) =
      map (\<lambda>b. b\<lparr>content := 10 # content b @ [10]\<rparr>) (blocks F)"
  proof -
    have "blocks (snd (parse g out)) =
        map (\<lambda>m. projr (block_of_match m)) (finditer block_pattern out)"
      by (simp add: parse_eq tk)
    also have "\<dots> = map (\<lambda>m. projr (block_of_match m)) (map block_groups (blocks F))"
      by (simp only: ms)
    also have "\<dots> = map (\<lambda>b. b\<lparr>content := 10 # content b @ [10]\<rparr>) (blocks F)"
      using w by (simp add: block_of_match_groups)
    finally show ?thesis .
  qed
  from 1 2 3 show ?thesis unfolding F_def by blast
qed

lemma strip_wrapped: "strip (10 # c @ [10]) = strip c"
proof -
  have sp: "is_space 10" by (simp add: is_space_def)
  show ?thesis
  proof (cases "list_all is_space c")
    case True
    then have "dropWhile is_space (c @ [10]) = []" and "dropWhile is_space c = []"
      using sp by (auto simp: list_all_iff)
    with sp show ?thesis by (simp add: strip_def del: dropWhile_eq_Nil_conv)
  next
    case False
    then have "dropWhile is_space (c @ [10]) = dropWhile is_space c @ [10]"
      by (auto simp: list_all_iff dropWhile_append1)
    with sp show ?thesis by (simp add: strip_def)
  qed
qed

text \<open>
  C7. Serializing what \<open>_parse\<close> built and parsing the text again gives the same blocks
  in the same order, with the same name, link, type and \<open>encrypted\<close> flag; the content
  of each block comes back with one line feed added at each end (\<open>to_jdat\<close> writes the
  content on lines of its own, and the pattern captures all that stands between the
  braces), so it is the same only after \<open>strip\<close>. This holds for every text none of
  whose comments holds \<open>(n:\<close>; the serialization raises nothing, nor does the second
  parse.
\<close>

theorem reparse_wraps_content:
  assumes "\<forall>c \<in> set (comments (snd (parse f text))). \<not> contains (ascii ''(n:'') c"
  shows "\<exists>out. to_jdat (snd (parse f text)) = (Inr out, snd (parse f text)) \<and>
           fst (parse g out) = Inr () \<and>
           blocks (snd (parse g out)) =
             map (\<lambda>b. b\<lparr>content := 10 # content b @ [10]\<rparr>) (blocks (snd (parse f text))) \<and>
           map (\<lambda>b. strip (content b)) (blocks (snd (parse g out))) =
             map (\<lambda>b. strip (content b)) (blocks (snd (parse f text)))"
proof -
  from reparse [OF assms, of g] obtain out where
    o: "to_jdat (snd (parse f text)) = (Inr out, snd (parse f text))"
       "fst (parse g out) = Inr ()"
       "blocks (snd (parse g out)) =
          map (\<lambda>b. b\<lparr>content := 10 # content b @ [10]\<rparr>) (blocks (snd (parse f text)))"
    by blast
  from o(3) have "map (\<lambda>b. strip (content b)) (blocks (snd (parse g out))) =
      map (\<lambda>b. strip (content b)) (blocks (snd (parse f text)))"
    by (simp add: strip_wrapped comp_def)
  with o show ?thesis by blast
qed

lemma parse_plain_sample:
  "parse (new_file None) (ascii ''(n:a l:b t:2{x})'') =
     (Inr (), \<lparr>path = None,
               blocks = [new_block (ascii ''a'') (ascii ''b'') 2 (ascii ''x'') False],
               comments = []\<rparr>)"
  by (simp add: parse_eval str_eval)

lemma str_of_int_2: "str_of_int 2 = Inr (ascii ''2'')"
  by (simp add: str_of_int_def digits_of_nat.simps int_max_str_digits_def ascii_def)

theorem reparse_wraps_content_witness:
  "comments (snd (parse (new_file None) (ascii ''({< hi >}) (n:a l:b t:2 encrypted{QUJD})''))) =
     [ascii ''hi''] \<and>
   \<not> contains (ascii ''(n:'') (ascii ''hi'') \<and>
   (\<exists>out. to_jdat (snd (parse (new_file None) (ascii ''({< hi >}) (n:a l:b t:2 encrypted{QUJD})'')))
            = (Inr out, snd (parse (new_file None) (ascii ''({< hi >}) (n:a l:b t:2 encrypted{QUJD})''))) \<and>
          fst (parse (new_file None) out) = Inr () \<and>
          blocks (snd (parse (new_file None) out)) =
            [new_block (ascii ''a'') (ascii ''b'') 2 (10 # ascii ''QUJD'' @ [10]) True])"
proof -
  let ?T = "ascii ''({< hi >}) (n:a l:b t:2 encrypted{QUJD})''"
  have c: "\<not> contains (ascii ''(n:'') (ascii ''hi'')"
    by (simp add: starts_def ascii_def)
  then have h: "\<forall>c \<in> set (comments (snd (parse (new_file None) ?T))). \<not> contains (ascii ''(n:'') c"
    by (simp add: parse_sample)
  from reparse_wraps_content [OF h, of "new_file None"] obtain out where
    o: "to_jdat (snd (parse (new_file None) ?T)) = (Inr out, snd (parse (new_file None) ?T))"
       "fst (parse (new_file None) out) = Inr ()"
       "blocks (snd (parse (new_file None) out)) =
          map (\<lambda>b. b\<lparr>content := 10 # content b @ [10]\<rparr>)
            (blocks (snd (parse (new_file None) ?T)))"
    by blast
  from o(3) have "blocks (snd (parse (new_file None) out)) =
      [new_block (ascii ''a'') (ascii ''b'') 2 (10 # ascii ''QUJD'' @ [10]) True]"
    by (simp add: parse_sample new_block_def)
  with o(1) o(2) have "\<exists>out. to_jdat (snd (parse (new_file None) ?T))
            = (Inr out, snd (parse (new_file None) ?T)) \<and>
          fst (parse (new_file None) out) = Inr () \<and>
          blocks (snd (parse (new_file None) out)) =
            [new_block (ascii ''a'') (ascii ''b'') 2 (10 # ascii ''QUJD'' @ [10]) True]"
    by blast
  moreover have "comments (snd (parse (new_file None) ?T)) = [ascii ''hi'']"
    by (simp add: parse_sample)
  ultimately show ?thesis using c by blast
qed

text \<open>
  The content itself is not the same: from the text \<open>(n:a l:b t:2{x})\<close> the content
  \<open>x\<close> is parsed, and from its serialization the content \<open>x\<close> between two line feeds.
\<close>

theorem reparse_changes_content:
  "parse (new_file None) (ascii ''(n:a l:b t:2{x})'') =
     (Inr (), \<lparr>path = None,
               blocks = [new_block (ascii ''a'') (ascii ''b'') 2 (ascii ''x'') False],
               comments = []\<rparr>) \<and>
   fst (to_jdat (snd (parse (new_file None) (ascii ''(n:a l:b t:2{x})'')))) =
     Inr (ascii ''(n:a l:b t:2{'' @ [10] @ ascii ''x'' @ [10] @ ascii ''})'' @ [10]) \<and>
   parse (new_file None) (ascii ''(n:a l:b t:2{'' @ [10] @ ascii ''x'' @ [10] @ ascii ''})'' @ [10]) =
     (Inr (), \<lparr>path = None,
               blocks = [new_block (ascii ''a'') (ascii ''b'') 2 ([10] @ ascii ''x'' @ [10]) False],
               comments = []\<rparr>) \<and>
   [10] @ ascii ''x'' @ [10] \<noteq> ascii ''x''"
proof -
  have 1: "parse (new_file None) (ascii ''(n:a l:b t:2{x})'') =
     (Inr (), \<lparr>path = None,
               blocks = [new_block (ascii ''a'') (ascii ''b'') 2 (ascii ''x'') False],
               comments = []\<rparr>)"
    by (rule parse_plain_sample)
  have 2: "fst (to_jdat (snd (parse (new_file None) (ascii ''(n:a l:b t:2{x})'')))) =
     Inr (ascii ''(n:a l:b t:2{'' @ [10] @ ascii ''x'' @ [10] @ ascii ''})'' @ [10])"
    by (simp only: 1 snd_conv)
       (simp add: to_jdat_def block_to_jdat_def new_block_def str_of_int_2 ascii_def)
  have 3: "parse (new_file None) (ascii ''(n:a l:b t:2{'' @ [10] @ ascii ''x'' @ [10] @ ascii ''})'' @ [10]) =
     (Inr (), \<lparr>path = None,
               blocks = [new_block (ascii ''a'') (ascii ''b'') 2 ([10] @ ascii ''x'' @ [10]) False],
               comments = []\<rparr>)"
    by (simp add: parse_eval str_eval)
  have 4: "[10] @ ascii ''x'' @ [10] \<noteq> ascii ''x''" by (simp add: ascii_def)
  from 1 2 3 4 show ?thesis by blast
qed

section \<open>UTF-8 decodes what it encodes\<close>

lemma unat_byte: "n < 256 \<Longrightarrow> unat (of_nat n :: 8 word) = n"
  by (simp add: unat_of_nat)

lemma utf8_decode_1:
  assumes "c < 128"
  shows "utf8_decode (of_nat c # r) = cons_char c (utf8_decode r)"
proof -
  have u: "unat (of_nat c :: 8 word) = c" using assms by (simp add: unat_byte)
  show ?thesis by (simp add: word_less_nat_alt u assms)
qed

lemma utf8_decode_2:
  assumes "128 \<le> c" "c < 2048"
  shows "utf8_decode (of_nat (192 + c div 64) # of_nat (128 + c mod 64) # r)
    = cons_char c (utf8_decode r)"
proof -
  define h l where "h = c div 64" and "l = c mod 64"
  have b: "2 \<le> h" "h < 32" "l < 64" and c: "h * 64 + l = c"
    using assms by (simp_all add: h_def l_def)
  have u: "unat (192 + of_nat h :: 8 word) = 192 + h" "unat (128 + of_nat l :: 8 word) = 128 + l"
    using b by (simp_all add: unat_word_ariths unat_of_nat)
  have "utf8_decode (of_nat (192 + h) # of_nat (128 + l) # r) = cons_char c (utf8_decode r)"
    using b c by (simp add: word_less_nat_alt word_le_nat_alt is_cont_def u)
  then show ?thesis by (simp add: h_def l_def)
qed

lemma utf8_decode_3:
  assumes "2048 \<le> c" "c < 65536" "\<not> is_surrogate c"
  shows "utf8_decode (of_nat (224 + c div 4096) # of_nat (128 + c div 64 mod 64)
            # of_nat (128 + c mod 64) # r)
    = cons_char c (utf8_decode r)"
proof -
  define h m l q where "h = c div 4096" and "m = c div 64 mod 64" and "l = c mod 64"
    and "q = c div 64"
  have "c div 4096 = c div (64 * 64)" by simp
  also have "\<dots> = c div 64 div 64" by (rule div_mult2_eq)
  finally have hq: "h = q div 64" by (simp add: h_def q_def)
  have q: "c = q * 64 + l" "l < 64" by (simp_all add: q_def l_def)
  have q': "q = h * 64 + m" "m < 64" by (simp_all add: hq m_def q_def)
  have b: "h < 16" "m < 64" "l < 64" and c: "h * 4096 + m * 64 + l = c"
    and lo: "h = 0 \<longrightarrow> 32 \<le> m" and hi: "h = 13 \<longrightarrow> m \<le> 31"
    using assms q q' unfolding is_surrogate_def by arith+
  have u: "unat (224 + of_nat h :: 8 word) = 224 + h"
    "unat (128 + of_nat m :: 8 word) = 128 + m" "unat (128 + of_nat l :: 8 word) = 128 + l"
    using b by (simp_all add: unat_word_ariths unat_of_nat)
  have "utf8_decode (of_nat (224 + h) # of_nat (128 + m) # of_nat (128 + l) # r)
      = cons_char c (utf8_decode r)"
    using b c lo hi
    by (simp add: word_less_nat_alt word_le_nat_alt word_unat_eq_iff is_cont_def u)
  then show ?thesis by (simp add: h_def m_def l_def)
qed

lemma utf8_decode_4:
  assumes "65536 \<le> c" "c < 1114112"
  shows "utf8_decode (of_nat (240 + c div 262144) # of_nat (128 + c div 4096 mod 64)
            # of_nat (128 + c div 64 mod 64) # of_nat (128 + c mod 64) # r)
    = cons_char c (utf8_decode r)"
proof -
  define h k m l q p where "h = c div 262144" and "k = c div 4096 mod 64"
    and "m = c div 64 mod 64" and "l = c mod 64" and "q = c div 64" and "p = c div 4096"
  have "c div 4096 = c div (64 * 64)" by simp
  also have "\<dots> = c div 64 div 64" by (rule div_mult2_eq)
  finally have pq: "p = q div 64" by (simp add: p_def q_def)
  have "c div 262144 = c div (4096 * 64)" by simp
  also have "\<dots> = c div 4096 div 64" by (rule div_mult2_eq)
  finally have hp: "h = p div 64" by (simp add: h_def p_def)
  have q: "c = q * 64 + l" "l < 64" by (simp_all add: q_def l_def)
  have q': "q = p * 64 + m" "m < 64" by (simp_all add: pq m_def q_def)
  have p': "p = h * 64 + k" "k < 64" by (simp_all add: hp k_def p_def)
  have b: "h < 5" "k < 64" "m < 64" "l < 64" and c: "h * 262144 + k * 4096 + m * 64 + l = c"
    and lo: "h = 0 \<longrightarrow> 16 \<le> k" and hi: "h = 4 \<longrightarrow> k \<le> 15"
    using assms q q' p' by arith+
  have u: "unat (240 + of_nat h :: 8 word) = 240 + h"
    "unat (128 + of_nat k :: 8 word) = 128 + k"
    "unat (128 + of_nat m :: 8 word) = 128 + m" "unat (128 + of_nat l :: 8 word) = 128 + l"
    using b by (simp_all add: unat_word_ariths unat_of_nat)
  have "utf8_decode (of_nat (240 + h) # of_nat (128 + k) # of_nat (128 + m) # of_nat (128 + l) # r)
      = cons_char c (utf8_decode r)"
    using b c lo hi
    by (simp add: word_less_nat_alt word_le_nat_alt word_unat_eq_iff is_cont_def u)
  then show ?thesis by (simp add: h_def k_def m_def l_def)
qed

lemma utf8_decode_char:
  assumes "utf8_char c = Some bs"
  shows "utf8_decode (bs @ r) = cons_char c (utf8_decode r)"
proof -
  consider
    (one) "c < 128" "bs = [of_nat c]"
  | (two) "128 \<le> c" "c < 2048" "bs = [of_nat (192 + c div 64), of_nat (128 + c mod 64)]"
  | (three) "2048 \<le> c" "c < 65536" "\<not> is_surrogate c"
      "bs = [of_nat (224 + c div 4096), of_nat (128 + c div 64 mod 64), of_nat (128 + c mod 64)]"
  | (four) "65536 \<le> c" "c < 1114112"
      "bs = [of_nat (240 + c div 262144), of_nat (128 + c div 4096 mod 64),
             of_nat (128 + c div 64 mod 64), of_nat (128 + c mod 64)]"
    using assms unfolding utf8_char_def
    by (auto split: if_splits simp del: of_nat_add)
  then show ?thesis
  proof cases
    case one
    show ?thesis
      unfolding one(2) append_Cons append_Nil by (rule utf8_decode_1 [OF one(1)])
  next
    case two
    show ?thesis
      unfolding two(3) append_Cons append_Nil by (rule utf8_decode_2 [OF two(1) two(2)])
  next
    case three
    show ?thesis
      unfolding three(4) append_Cons append_Nil
      by (rule utf8_decode_3 [OF three(1) three(2) three(3)])
  next
    case four
    show ?thesis
      unfolding four(3) append_Cons append_Nil by (rule utf8_decode_4 [OF four(1) four(2)])
  qed
qed

lemma utf8_roundtrip: "utf8_encode s = Inr b \<Longrightarrow> utf8_decode b = Inr s"
proof (induction s arbitrary: b)
  case Nil
  then show ?case by simp
next
  case (Cons c cs)
  from Cons.prems obtain bs r where
    c: "utf8_char c = Some bs" and r: "utf8_encode cs = Inr r" and b: "b = bs @ r"
    by (auto split: option.splits sum.splits)
  from Cons.IH [OF r] have "utf8_decode r = Inr cs" .
  with utf8_decode_char [OF c, of r] b show ?case by (simp add: cons_char_def)
qed

section \<open>Base64 decodes what it encodes\<close>

lemma bit_index_cases:
  "(n::nat) < LENGTH(8) \<Longrightarrow> n = 7 \<or> n = 6 \<or> n = 5 \<or> n = 4 \<or> n = 3 \<or> n = 2 \<or> n = 1 \<or> n = 0"
  by simp arith

lemma quad_byte1:
  "push_bit 2 (drop_bit 2 a AND 63) OR drop_bit 4 ((push_bit 4 (a AND 3) OR drop_bit 4 b) AND 63)
     = (a :: 8 word)"
  apply (rule bit_word_eqI)
  apply (drule bit_index_cases)
  apply (elim disjE; simp add: bit_simps)
  done

lemma quad_byte1_pad:
  "push_bit 2 (drop_bit 2 a AND 63) OR drop_bit 4 (push_bit 4 (a AND 3) AND 63) = (a :: 8 word)"
  apply (rule bit_word_eqI)
  apply (drule bit_index_cases)
  apply (elim disjE; simp add: bit_simps)
  done

lemma quad_byte2:
  "push_bit 4 (((push_bit 4 (a AND 3) OR drop_bit 4 b) AND 63) AND 15)
     OR drop_bit 2 ((push_bit 2 (b AND 15) OR drop_bit 6 c) AND 63) = (b :: 8 word)"
  apply (rule bit_word_eqI)
  apply (drule bit_index_cases)
  apply (elim disjE; simp add: bit_simps)
  done

lemma quad_byte2_pad:
  "push_bit 4 (((push_bit 4 (a AND 3) OR drop_bit 4 b) AND 63) AND 15)
     OR drop_bit 2 (push_bit 2 (b AND 15) AND 63) = (b :: 8 word)"
  apply (rule bit_word_eqI)
  apply (drule bit_index_cases)
  apply (elim disjE; simp add: bit_simps)
  done

lemma quad_byte3:
  "push_bit 6 (((push_bit 2 (b AND 15) OR drop_bit 6 c) AND 63) AND 3) OR ((c AND 63) AND 63)
     = (c :: 8 word)"
  apply (rule bit_word_eqI)
  apply (drule bit_index_cases)
  apply (elim disjE; simp add: bit_simps)
  done

lemma alphabet_values: "map a2b b64_alphabet = map (\<lambda>i. Some (of_nat i)) [0..<64]"
  by (simp add: b64_alphabet_def a2b_def upt_rec)

lemma alphabet_chars: "list_all (\<lambda>c. c < 128 \<and> c \<noteq> 61 \<and> \<not> is_space (unat c)) b64_alphabet"
  by (simp add: b64_alphabet_def is_space_def)

lemma length_alphabet: "length b64_alphabet = 64"
  by (simp add: b64_alphabet_def)

lemma unat_and_63: "unat ((v :: 8 word) AND 63) < 64"
proof -
  have "unat (v AND 63) \<le> unat (63 :: 8 word)"
    by (rule word_and_le1 [THEN word_le_nat_alt [THEN iffD1]])
  then show ?thesis by simp
qed

lemma a2b_b2a: "a2b (b2a v) = Some (v AND 63)"
proof -
  let ?i = "unat (v AND 63)"
  have i: "?i < 64" by (rule unat_and_63)
  have "a2b (b64_alphabet ! ?i) = map a2b b64_alphabet ! ?i"
    using i by (simp add: length_alphabet)
  also have "\<dots> = Some (of_nat ?i)"
    using i by (simp only: alphabet_values) simp
  finally show ?thesis by (simp add: b2a_def)
qed

lemma b2a_char: "b2a v < 128 \<and> b2a v \<noteq> 61 \<and> \<not> is_space (unat (b2a v))"
  using alphabet_chars unat_and_63 [of v]
  by (simp add: b2a_def list_all_length length_alphabet)

lemma a2b_base64_quad:
  "a2b c0 = Some v0 \<Longrightarrow> a2b c1 = Some v1 \<Longrightarrow> a2b c2 = Some v2 \<Longrightarrow> a2b c3 = Some v3 \<Longrightarrow>
   c0 \<noteq> 61 \<Longrightarrow> c1 \<noteq> 61 \<Longrightarrow> c2 \<noteq> 61 \<Longrightarrow> c3 \<noteq> 61 \<Longrightarrow>
     a2b_base64 ([c0, c1, c2, c3] @ rest) 0 lc pads out =
     a2b_base64 rest 0 0 0
       (out @ [push_bit 2 v0 OR drop_bit 4 v1, push_bit 4 (v1 AND 15) OR drop_bit 2 v2,
               push_bit 6 (v2 AND 3) OR v3])"
  by simp

lemma a2b_base64_pad2:
  "a2b c0 = Some v0 \<Longrightarrow> a2b c1 = Some v1 \<Longrightarrow> c0 \<noteq> 61 \<Longrightarrow> c1 \<noteq> 61 \<Longrightarrow>
     a2b_base64 [c0, c1, 61, 61] 0 lc pads out = Inr (out @ [push_bit 2 v0 OR drop_bit 4 v1])"
  by simp

lemma a2b_base64_pad1:
  "a2b c0 = Some v0 \<Longrightarrow> a2b c1 = Some v1 \<Longrightarrow> a2b c2 = Some v2 \<Longrightarrow>
   c0 \<noteq> 61 \<Longrightarrow> c1 \<noteq> 61 \<Longrightarrow> c2 \<noteq> 61 \<Longrightarrow>
     a2b_base64 [c0, c1, c2, 61] 0 lc pads out =
     Inr (out @ [push_bit 2 v0 OR drop_bit 4 v1, push_bit 4 (v1 AND 15) OR drop_bit 2 v2])"
  by simp

lemma b2a_not_pad: "b2a v \<noteq> 61"
  using b2a_char [of v] by simp

lemma a2b_base64_b64encode:
  "a2b_base64 (b64encode raw) 0 lc pads out = Inr (out @ raw)"
proof (induction raw arbitrary: lc pads out rule: b64encode.induct)
  case 1
  then show ?case by simp
next
  case (2 a)
  have "a2b_base64 (b64encode [a]) 0 lc pads out =
      a2b_base64 [b2a (drop_bit 2 a), b2a (push_bit 4 (a AND 3)), 61, 61] 0 lc pads out"
    by (simp only: b64encode.simps)
  also have "\<dots> = Inr (out @ [push_bit 2 (drop_bit 2 a AND 63)
       OR drop_bit 4 (push_bit 4 (a AND 3) AND 63)])"
    by (rule a2b_base64_pad2 [OF a2b_b2a a2b_b2a b2a_not_pad b2a_not_pad])
  finally show ?case by (simp only: quad_byte1_pad)
next
  case (3 a b)
  have "a2b_base64 (b64encode [a, b]) 0 lc pads out =
      a2b_base64 [b2a (drop_bit 2 a), b2a (push_bit 4 (a AND 3) OR drop_bit 4 b),
        b2a (push_bit 2 (b AND 15)), 61] 0 lc pads out"
    by (simp only: b64encode.simps)
  also have "\<dots> = Inr (out @ [push_bit 2 (drop_bit 2 a AND 63)
        OR drop_bit 4 ((push_bit 4 (a AND 3) OR drop_bit 4 b) AND 63),
      push_bit 4 (((push_bit 4 (a AND 3) OR drop_bit 4 b) AND 63) AND 15)
        OR drop_bit 2 (push_bit 2 (b AND 15) AND 63)])"
    by (rule a2b_base64_pad1 [OF a2b_b2a a2b_b2a a2b_b2a b2a_not_pad b2a_not_pad b2a_not_pad])
  finally show ?case by (simp only: quad_byte1 quad_byte2_pad)
next
  case (4 a b c r)
  have "a2b_base64 (b64encode (a # b # c # r)) 0 lc pads out =
      a2b_base64 ([b2a (drop_bit 2 a), b2a (push_bit 4 (a AND 3) OR drop_bit 4 b),
        b2a (push_bit 2 (b AND 15) OR drop_bit 6 c), b2a (c AND 63)] @ b64encode r) 0 lc pads out"
    by (simp only: b64encode.simps)
  also have "\<dots> = a2b_base64 (b64encode r) 0 0 0
      (out @ [push_bit 2 (drop_bit 2 a AND 63)
                OR drop_bit 4 ((push_bit 4 (a AND 3) OR drop_bit 4 b) AND 63),
              push_bit 4 (((push_bit 4 (a AND 3) OR drop_bit 4 b) AND 63) AND 15)
                OR drop_bit 2 ((push_bit 2 (b AND 15) OR drop_bit 6 c) AND 63),
              push_bit 6 (((push_bit 2 (b AND 15) OR drop_bit 6 c) AND 63) AND 3)
                OR ((c AND 63) AND 63)])"
    by (rule a2b_base64_quad [OF a2b_b2a a2b_b2a a2b_b2a a2b_b2a
          b2a_not_pad b2a_not_pad b2a_not_pad b2a_not_pad])
  also have "\<dots> = a2b_base64 (b64encode r) 0 0 0 (out @ [a, b, c])"
    by (simp only: quad_byte1 quad_byte2 quad_byte3)
  also have "\<dots> = Inr ((out @ [a, b, c]) @ r)"
    by (rule "4.IH")
  finally show ?case by simp
qed

lemma not_space_pad: "\<not> is_space 61"
  by (simp add: is_space_def)

lemma b64encode_chars: "list_all (\<lambda>c. c < 128 \<and> \<not> is_space (unat c)) (b64encode raw)"
  by (induction raw rule: b64encode.induct) (simp_all add: b2a_char not_space_pad)

lemma of_nat_unat_byte: "map (of_nat \<circ> unat) (bs :: bytes) = bs"
  by (induction bs) simp_all

lemma strip_no_space: "list_all (\<lambda>c. \<not> is_space c) s \<Longrightarrow> strip s = s"
proof -
  assume a: "list_all (\<lambda>c. \<not> is_space c) s"
  have d: "dropWhile is_space t = t" if "list_all (\<lambda>c. \<not> is_space c) t" for t
    using that by (cases t) simp_all
  from a have "list_all (\<lambda>c. \<not> is_space c) (rev s)" by (simp add: list_all_iff)
  with a show ?thesis by (simp add: strip_def d)
qed

lemma b64_text_roundtrip:
  "\<exists>t. ascii_decode (b64encode raw) = Inr t \<and> b64decode (strip t) = Inr raw"
proof -
  let ?t = "map unat (b64encode raw)"
  have c: "list_all (\<lambda>c. c < 128 \<and> \<not> is_space (unat c)) (b64encode raw)"
    by (rule b64encode_chars)
  then have 1: "ascii_decode (b64encode raw) = Inr ?t"
    by (simp add: ascii_decode_def list_all_iff)
  from c have "list_all (\<lambda>c. \<not> is_space c) ?t" by (simp add: list_all_iff)
  then have 2: "strip ?t = ?t" by (rule strip_no_space)
  from c have "list_all (\<lambda>c. c < 128) ?t"
    by (auto simp: list_all_iff word_less_nat_alt)
  then have 3: "ascii_encode ?t = Inr (b64encode raw)"
    by (simp add: ascii_encode_def of_nat_unat_byte)
  have "b64decode (strip ?t) = Inr raw"
    by (simp add: 2 b64decode_def 3 a2b_base64_b64encode)
  with 1 show ?thesis by blast
qed

section \<open>Encryption and decryption\<close>

lemma utf8_encode_scalar: "list_all is_scalar s \<Longrightarrow> \<exists>b. utf8_encode s = Inr b"
  by (induction s) (auto simp: is_scalar_def utf8_char_def)

lemma utf8_encode_surrogate:
  "\<not> list_all is_scalar s \<Longrightarrow> utf8_encode s = Inl UnicodeEncodeError"
  by (induction s) (auto simp: is_scalar_def is_surrogate_def utf8_char_def split: sum.splits)

lemma standin_lib_ok: "lib_ok standin_lib"
  by (auto simp: lib_ok_def standin_lib_def)



lemma encrypt_Inr:
  "encrypt L salt nonce plaintext pw = Inr pkg \<Longrightarrow>
     \<exists>ct. pkg = map unat (b64encode (salt @ nonce @ ct))"
  by (auto simp: encrypt_def ascii_decode_def split: sum.splits if_splits)

lemma encrypt_succeeds:
  assumes "lib_ok L" "length nonce = NONCE_SIZE"
    and "utf8_encode plaintext = Inr pt" "utf8_encode pw = Inr pb"
  shows "encrypt L salt nonce plaintext pw
    = Inr (map unat (b64encode (salt @ nonce @ gcm_encrypt L (sha256 L (pb @ salt)) nonce pt)))"
proof -
  from assms(1) have k: "length (sha256 L (pb @ salt)) = 32" by (simp add: lib_ok_def)
  have "list_all (\<lambda>c. c < 128 \<and> \<not> is_space (unat c)) (b64encode raw)" for raw
    by (rule b64encode_chars)
  then have a: "ascii_decode (b64encode raw) = Inr (map unat (b64encode raw))" for raw
    by (simp add: ascii_decode_def list_all_iff)
  show ?thesis
    using assms(2-4) k
    by (simp add: encrypt_def derive_key_def AESGCM_def AESGCM_encrypt_def NONCE_SIZE_def a)
qed

text \<open>
  C1. With a library that keeps its contract, a salt of \<open>SALT_SIZE\<close> and a nonce of
  \<open>NONCE_SIZE\<close> bytes, and a content and a password that UTF-8 can encode (no lone
  surrogate), \<open>encrypt\<close> returns a package and \<open>decrypt\<close> of that package under the
  same password returns the content. A content with a lone surrogate makes \<open>encrypt\<close>
  raise \<open>UnicodeEncodeError\<close>.
\<close>

theorem encrypt_then_decrypt:
  assumes "lib_ok L" and "length salt = SALT_SIZE" and "length nonce = NONCE_SIZE"
    and "list_all is_scalar text" and "list_all is_scalar pw"
  shows "\<exists>pkg. encrypt L salt nonce text pw = Inr pkg \<and> decrypt L pkg pw = Inr text"
proof -
  from assms(4) obtain pt where pt: "utf8_encode text = Inr pt"
    by (auto dest: utf8_encode_scalar)
  from assms(5) obtain pb where pb: "utf8_encode pw = Inr pb"
    by (auto dest: utf8_encode_scalar)
  define key where "key = sha256 L (pb @ salt)"
  define ct where "ct = gcm_encrypt L key nonce pt"
  define raw where "raw = salt @ nonce @ ct"
  define pkg where "pkg = map unat (b64encode raw)"
  have e: "encrypt L salt nonce text pw = Inr pkg"
    unfolding pkg_def raw_def ct_def key_def
    by (rule encrypt_succeeds [OF assms(1) assms(3) pt pb])
  have dk: "derive_key L pw salt = Inr key"
    by (simp add: derive_key_def pb key_def)
  from assms(1) have k: "length key = 32" by (simp add: lib_ok_def key_def)
  then have ak: "AESGCM key = Inr key" by (simp add: AESGCM_def)
  from assms(3) have n: "length nonce = 12" by (simp add: NONCE_SIZE_def)
  from assms(1) k n have ct: "length ct = length pt + 16"
    and dec: "gcm_decrypt L key nonce ct = Some pt"
    by (simp_all add: lib_ok_def ct_def)
  have ad: "AESGCM_decrypt L key nonce ct = Inr pt"
    by (simp add: AESGCM_decrypt_def n ct dec)
  from b64_text_roundtrip [of raw] have b: "b64decode (strip pkg) = Inr raw"
    by (auto simp: ascii_decode_def pkg_def split: if_splits)
  have s: "take SALT_SIZE raw = salt" "take NONCE_SIZE (drop SALT_SIZE raw) = nonce"
    "drop (SALT_SIZE + NONCE_SIZE) raw = ct"
    using assms(2,3) by (simp_all add: raw_def)
  have "decrypt_try L pkg pw = Inr text"
    by (simp add: decrypt_try_def b Let_def s dk ak ad utf8_roundtrip [OF pt])
  then have "decrypt L pkg pw = Inr text" by (simp add: decrypt_def)
  with e show ?thesis by blast
qed

theorem encrypt_then_decrypt_witness:
  "lib_ok standin_lib \<and> length salt0 = SALT_SIZE \<and> length nonce0 = NONCE_SIZE \<and>
   list_all is_scalar (ascii ''  name: Alice'') \<and> list_all is_scalar (ascii ''secret123'') \<and>
   (\<exists>pkg. encrypt standin_lib salt0 nonce0 (ascii ''  name: Alice'') (ascii ''secret123'') = Inr pkg \<and>
      decrypt standin_lib pkg (ascii ''secret123'') = Inr (ascii ''  name: Alice''))"
proof -
  have 1: "length salt0 = SALT_SIZE" "length nonce0 = NONCE_SIZE"
    by (simp_all add: salt0_def nonce0_def SALT_SIZE_def NONCE_SIZE_def)
  have 2: "list_all is_scalar (ascii ''  name: Alice'')" "list_all is_scalar (ascii ''secret123'')"
    by (simp_all add: ascii_def is_scalar_def is_surrogate_def)
  from encrypt_then_decrypt [OF standin_lib_ok 1 2] standin_lib_ok 1 2
  show ?thesis by blast
qed

theorem encrypt_surrogate_raises:
  "encrypt standin_lib salt0 nonce0 [55296] (ascii ''secret123'') = Inl UnicodeEncodeError"
  by (simp add: crypto_eval str_eval)




end
